theory Spec2Isabelle
  imports Main "HOL-Library.AList" "HOL-Library.Sublist"
begin

section \<open>The ZAP baseline scan orchestrator (security/zap-baseline-scan.py)\<close>

text \<open>
  The script drives an external scan engine through HTTP requests. The model makes every
  effect explicit: HTTP requests are answered by an engine double (a deterministic state
  machine), raised exceptions are values, the two unbounded polling loops take fuel, and
  a request that is sent without a timeout and never answered blocks the run.
\<close>

subsection \<open>Python values\<close>

text \<open>
  The values that \<open>response.json()\<close> can return. A dict is an association list read
  with \<open>map_of\<close>. Numbers are kept as integers: the script never computes with a
  number taken from a response.
\<close>

datatype json =
    JNull
  | JBool bool
  | JNum int
  | JStr string
  | JArr "json list"
  | JObj "(string \<times> json) list"

datatype exn =
    ConnectionError
  | RequestException
  | JSONDecodeError
  | KeyError
  | TypeError
  | AttributeError
  | OSError
  | SystemExit int

text \<open>\<open>isinstance(e, Exception)\<close>: \<open>SystemExit\<close> derives from \<open>BaseException\<close> only.\<close>

fun is_Exception :: "exn \<Rightarrow> bool" where
  "is_Exception (SystemExit _) = False"
| "is_Exception _ = True"

text \<open>\<open>d.get(key, default)\<close>; only a dict has the method.\<close>

fun dict_get :: "json \<Rightarrow> string \<Rightarrow> json \<Rightarrow> exn + json" where
  "dict_get (JObj kvs) k d = Inr (case map_of kvs k of None \<Rightarrow> d | Some v \<Rightarrow> v)"
| "dict_get _ k d = Inl AttributeError"

text \<open>\<open>v[key]\<close> with a string key.\<close>

fun getitem :: "json \<Rightarrow> string \<Rightarrow> exn + json" where
  "getitem (JObj kvs) k = (case map_of kvs k of None \<Rightarrow> Inl KeyError | Some v \<Rightarrow> Inr v)"
| "getitem _ k = Inl TypeError"

subsection \<open>\<open>str.replace\<close>\<close>

text \<open>
  \<open>s.replace(old, new)\<close>: the occurrences of \<open>old\<close> are found from the left and do
  not overlap. For an empty \<open>old\<close> Python puts \<open>new\<close> before every character and at
  the end.
\<close>

function str_replace :: "string \<Rightarrow> string \<Rightarrow> string \<Rightarrow> string" where
  "str_replace old new [] = (if old = [] then new else [])"
| "str_replace old new (c # cs) =
     (if old = [] then new @ c # str_replace old new cs
      else if prefix old (c # cs) then new @ str_replace old new (drop (length old) (c # cs))
      else c # str_replace old new cs)"
  by pat_completeness auto
termination
  by (relation "measure (\<lambda>(old, new, s). length s)") (auto simp: Suc_le_eq)

subsection \<open>The scanner object\<close>

record scanner =
  target_url :: string
  api_url :: string
  zap_port :: nat
  results_dir :: string

text \<open>
  The field values set by \<open>__init__\<close>. \<open>api_url or d\<close> takes \<open>d\<close> when
  \<open>api_url\<close> is \<open>None\<close> or the empty string.
\<close>

definition init_fields :: "string \<Rightarrow> string option \<Rightarrow> scanner" where
  "init_fields target api =
     \<lparr> target_url = target,
       api_url = (case api of
                    None \<Rightarrow> str_replace '':3000'' '':8080'' target
                  | Some u \<Rightarrow> if u = [] then str_replace '':3000'' '':8080'' target else u),
       zap_port = 8080,
       results_dir = ''security/results'' \<rparr>"

subsection \<open>The engine, the world and the results of a step\<close>

text \<open>
  Every \<open>requests.get\<close> call of the script is one \<open>request\<close>, with the parameter
  that varies. The other side refuses the connection (\<open>requests.ConnectionError\<close>),
  fails the request in another way (another exception of \<open>requests\<close>), never answers,
  or returns a response with a status code and a body; the body is \<open>None\<close> when it
  is not JSON. Interrupts from outside are not modelled.
\<close>

datatype request =
    VersionReq
  | IncludeInContextReq string
  | HealthReq string
  | SpiderScanReq string
  | SpiderStatusReq json
  | AscanScanReq string
  | AscanStatusReq json
  | AlertsReq string
  | HtmlReportReq string

datatype outcome = ConnFail | OtherFail | Hangs | Response int "json option"

record response =
  status_code :: int
  body :: "json option"

datatype event =
    Popen
  | Http request outcome
  | Sleep nat
  | Terminate
  | WaitExit

record finding =
  name :: json
  description :: json
  solution :: json
  url :: json
  param :: json
  evidence :: json

record report =
  scan_date :: string
  report_target_url :: string
  summary :: "(string \<times> int) list"
  findings :: "(string \<times> finding list) list"
  total_alerts :: int

text \<open>
  What the script does not decide: how the engine answers, whether \<open>zap.sh\<close> can be
  spawned, whether the results directory and the report file can be written, and the
  clock.
\<close>

record 'e env =
  respond :: "'e \<Rightarrow> request \<Rightarrow> outcome \<times> 'e"
  popen_ok :: bool
  makedirs_ok :: bool
  open_ok :: bool
  strftime :: string

text \<open>
  What a run changes: the engine's state, the events so far (oldest first), whether
  \<open>self.zap_process\<close> has been set, and the contents of \<open>zap-report.json\<close>.
\<close>

record 'e world =
  engine :: 'e
  trace :: "event list"
  zap_process :: bool
  report_file :: "report option"

text \<open>
  A step returns, raises, is still in a polling loop when the fuel is used up, or is
  blocked for ever in a request that has no timeout and is never answered.
\<close>

datatype 'a res = Ok 'a | Raised exn | OutOfFuel | Blocked

definition and_then ::
  "('w \<Rightarrow> 'a res \<times> 'w) \<Rightarrow> ('a \<Rightarrow> 'w \<Rightarrow> 'b res \<times> 'w) \<Rightarrow> 'w \<Rightarrow> 'b res \<times> 'w" where
  "and_then m f w =
     (case m w of
        (Ok a, w1) \<Rightarrow> f a w1
      | (Raised e, w1) \<Rightarrow> (Raised e, w1)
      | (OutOfFuel, w1) \<Rightarrow> (OutOfFuel, w1)
      | (Blocked, w1) \<Rightarrow> (Blocked, w1))"

definition returns :: "'a \<Rightarrow> 'w \<Rightarrow> 'a res \<times> 'w" where
  "returns a w = (Ok a, w)"

definition lift :: "exn + 'a \<Rightarrow> 'w \<Rightarrow> 'a res \<times> 'w" where
  "lift x w = (case x of Inl e \<Rightarrow> (Raised e, w) | Inr a \<Rightarrow> (Ok a, w))"

definition emit :: "event list \<Rightarrow> 'e world \<Rightarrow> 'e world" where
  "emit evs w = w\<lparr>trace := trace w @ evs\<rparr>"

definition sleep :: "nat \<Rightarrow> 'e world \<Rightarrow> 'e world" where
  "sleep secs w = emit [Sleep secs] w"

text \<open>
  \<open>requests.get(url, params, timeout)\<close>. With a timeout, a request that is never
  answered raises \<open>requests.Timeout\<close>, one of the other exceptions of \<open>requests\<close>;
  without one, the call never returns.
\<close>

definition request_result :: "nat option \<Rightarrow> outcome \<Rightarrow> response res" where
  "request_result timeout out =
     (case out of
        ConnFail \<Rightarrow> Raised ConnectionError
      | OtherFail \<Rightarrow> Raised RequestException
      | Hangs \<Rightarrow> (case timeout of None \<Rightarrow> Blocked | Some _ \<Rightarrow> Raised RequestException)
      | Response code b \<Rightarrow> Ok \<lparr>status_code = code, body = b\<rparr>)"

definition requests_get ::
  "'e env \<Rightarrow> request \<Rightarrow> nat option \<Rightarrow> 'e world \<Rightarrow> response res \<times> 'e world" where
  "requests_get env rq timeout w =
     (case respond env (engine w) rq of (out, e1) \<Rightarrow>
        (request_result timeout out, emit [Http rq out] (w\<lparr>engine := e1\<rparr>)))"

definition response_json :: "response \<Rightarrow> exn + json" where
  "response_json r = (case body r of None \<Rightarrow> Inl JSONDecodeError | Some j \<Rightarrow> Inr j)"

subsection \<open>\<open>start_zap_daemon\<close>\<close>

text \<open>The \<open>for\<close> loop, with the number of attempts left.\<close>

fun wait_for_zap :: "'e env \<Rightarrow> nat \<Rightarrow> 'e world \<Rightarrow> bool res \<times> 'e world" where
  "wait_for_zap env 0 w = (Ok False, w)"
| "wait_for_zap env (Suc n) w =
     (case requests_get env VersionReq None w of
        (Ok r, w1) \<Rightarrow>
          if status_code r = 200 then (Ok True, w1) else wait_for_zap env n w1
      | (Raised e, w1) \<Rightarrow>
          if e = ConnectionError then wait_for_zap env n (sleep 2 w1) else (Raised e, w1)
      | (OutOfFuel, w1) \<Rightarrow> (OutOfFuel, w1)
      | (Blocked, w1) \<Rightarrow> (Blocked, w1))"

definition max_attempts :: nat where
  "max_attempts = 30"

text \<open>The body of the outer \<open>try\<close>; a failing \<open>Popen\<close> raises and sets nothing.\<close>

definition start_zap_daemon_try :: "'e env \<Rightarrow> 'e world \<Rightarrow> bool res \<times> 'e world" where
  "start_zap_daemon_try env w =
     (if popen_ok env
      then wait_for_zap env max_attempts (emit [Popen] (w\<lparr>zap_process := True\<rparr>))
      else (Raised OSError, w))"

definition start_zap_daemon :: "'e env \<Rightarrow> 'e world \<Rightarrow> bool res \<times> 'e world" where
  "start_zap_daemon env w =
     (case start_zap_daemon_try env w of
        (Raised e, w1) \<Rightarrow> if is_Exception e then (Ok False, w1) else (Raised e, w1)
      | (r, w1) \<Rightarrow> (r, w1))"

subsection \<open>\<open>configure_zap\<close> and \<open>has_auth\<close>\<close>

text \<open>
  The health probe is the one request with a timeout (5 seconds). The bare \<open>except\<close>
  of \<open>has_auth\<close> catches whatever the request raises, the timeout too.
\<close>

definition has_auth :: "'e env \<Rightarrow> scanner \<Rightarrow> 'e world \<Rightarrow> bool res \<times> 'e world" where
  "has_auth env self w =
     (case requests_get env (HealthReq (target_url self @ ''/api/health'')) (Some 5) w of
        (Ok r, w1) \<Rightarrow> (Ok (status_code r = 401), w1)
      | (Raised e, w1) \<Rightarrow> (Ok False, w1)
      | (OutOfFuel, w1) \<Rightarrow> (OutOfFuel, w1)
      | (Blocked, w1) \<Rightarrow> (Blocked, w1))"

definition configure_authentication :: "'e world \<Rightarrow> unit res \<times> 'e world" where
  "configure_authentication w = (Ok (), w)"

definition configure_zap :: "'e env \<Rightarrow> scanner \<Rightarrow> 'e world \<Rightarrow> unit res \<times> 'e world" where
  "configure_zap env self =
     and_then (requests_get env (IncludeInContextReq (target_url self @ ''.*'')) None) (\<lambda>_.
     and_then (has_auth env self) (\<lambda>auth.
       if auth then configure_authentication else returns ()))"

subsection \<open>The two scans\<close>

text \<open>\<open>requests.get(...).json()['status']\<close>\<close>

definition poll_status :: "'e env \<Rightarrow> request \<Rightarrow> 'e world \<Rightarrow> json res \<times> 'e world" where
  "poll_status env rq =
     and_then (requests_get env rq None) (\<lambda>r.
     and_then (lift (response_json r)) (\<lambda>j.
       lift (getitem j ''status'')))"

text \<open>
  The \<open>while True\<close> loops. Nothing bounds them in the script, so they take fuel: one
  unit for each poll.
\<close>

fun spider_wait :: "'e env \<Rightarrow> json \<Rightarrow> nat \<Rightarrow> 'e world \<Rightarrow> unit res \<times> 'e world" where
  "spider_wait env scan_id 0 w = (OutOfFuel, w)"
| "spider_wait env scan_id (Suc n) w =
     (case poll_status env (SpiderStatusReq scan_id) w of
        (Ok status, w1) \<Rightarrow>
          if status = JStr ''100'' then (Ok (), w1)
          else spider_wait env scan_id n (sleep 2 w1)
      | (Raised e, w1) \<Rightarrow> (Raised e, w1)
      | (OutOfFuel, w1) \<Rightarrow> (OutOfFuel, w1)
      | (Blocked, w1) \<Rightarrow> (Blocked, w1))"

definition run_spider_scan :: "'e env \<Rightarrow> scanner \<Rightarrow> nat \<Rightarrow> 'e world \<Rightarrow> json res \<times> 'e world" where
  "run_spider_scan env self fuel =
     and_then (requests_get env (SpiderScanReq (target_url self)) None) (\<lambda>r.
     and_then (lift (response_json r)) (\<lambda>j.
     and_then (lift (getitem j ''scan'')) (\<lambda>scan_id.
     and_then (spider_wait env scan_id fuel) (\<lambda>_.
       returns scan_id))))"

fun ascan_wait :: "'e env \<Rightarrow> json \<Rightarrow> nat \<Rightarrow> 'e world \<Rightarrow> unit res \<times> 'e world" where
  "ascan_wait env scan_id 0 w = (OutOfFuel, w)"
| "ascan_wait env scan_id (Suc n) w =
     (case poll_status env (AscanStatusReq scan_id) w of
        (Ok status, w1) \<Rightarrow>
          if status = JStr ''100'' then (Ok (), w1)
          else ascan_wait env scan_id n (sleep 5 w1)
      | (Raised e, w1) \<Rightarrow> (Raised e, w1)
      | (OutOfFuel, w1) \<Rightarrow> (OutOfFuel, w1)
      | (Blocked, w1) \<Rightarrow> (Blocked, w1))"

definition run_active_scan :: "'e env \<Rightarrow> scanner \<Rightarrow> nat \<Rightarrow> 'e world \<Rightarrow> json res \<times> 'e world" where
  "run_active_scan env self fuel =
     and_then (requests_get env (AscanScanReq (target_url self)) None) (\<lambda>r.
     and_then (lift (response_json r)) (\<lambda>j.
     and_then (lift (getitem j ''scan'')) (\<lambda>scan_id.
     and_then (ascan_wait env scan_id fuel) (\<lambda>_.
       returns scan_id))))"

definition get_scan_results :: "'e env \<Rightarrow> scanner \<Rightarrow> 'e world \<Rightarrow> json res \<times> 'e world" where
  "get_scan_results env self =
     and_then (requests_get env (AlertsReq (target_url self)) None) (\<lambda>r.
       lift (response_json r))"

subsection \<open>\<open>generate_report\<close>\<close>

text \<open>
  \<open>for alert in alerts\<close>: a list gives its elements, a dict its keys, a string its
  characters; nothing else can be iterated.
\<close>

fun py_iter :: "json \<Rightarrow> exn + json list" where
  "py_iter (JArr xs) = Inr xs"
| "py_iter (JObj kvs) = Inr (map (\<lambda>kv. JStr (fst kv)) (AList.clearjunk kvs))"
| "py_iter (JStr s) = Inr (map (\<lambda>c. JStr [c]) s)"
| "py_iter _ = Inl TypeError"

text \<open>
  \<open>d[risk]\<close> on one of the two dicts of the loop, whose keys are strings: a list or a
  dict is not hashable, any other value is just not a key.
\<close>

fun bucket_lookup :: "(string \<times> 'v) list \<Rightarrow> json \<Rightarrow> exn + (string \<times> 'v)" where
  "bucket_lookup d (JStr s) = (case map_of d s of None \<Rightarrow> Inl KeyError | Some v \<Rightarrow> Inr (s, v))"
| "bucket_lookup d (JArr _) = Inl TypeError"
| "bucket_lookup d (JObj _) = Inl TypeError"
| "bucket_lookup d _ = Inl KeyError"

definition risk_counts_init :: "(string \<times> int) list" where
  "risk_counts_init = [(''High'', 0), (''Medium'', 0), (''Low'', 0), (''Informational'', 0)]"

definition detailed_findings_init :: "(string \<times> finding list) list" where
  "detailed_findings_init = [(''High'', []), (''Medium'', []), (''Low'', []), (''Informational'', [])]"

text \<open>The dict appended to a bucket; \<open>alert\<close> is known to be a dict here.\<close>

definition make_finding :: "(string \<times> json) list \<Rightarrow> finding" where
  "make_finding kvs =
     \<lparr> name = (case map_of kvs ''alert'' of None \<Rightarrow> JStr ''Unknown'' | Some v \<Rightarrow> v),
       description = (case map_of kvs ''desc'' of None \<Rightarrow> JStr [] | Some v \<Rightarrow> v),
       solution = (case map_of kvs ''solution'' of None \<Rightarrow> JStr [] | Some v \<Rightarrow> v),
       url = (case map_of kvs ''url'' of None \<Rightarrow> JStr [] | Some v \<Rightarrow> v),
       param = (case map_of kvs ''param'' of None \<Rightarrow> JStr [] | Some v \<Rightarrow> v),
       evidence = (case map_of kvs ''evidence'' of None \<Rightarrow> JStr [] | Some v \<Rightarrow> v) \<rparr>"

text \<open>\<open>alert.get('risk', 'Informational')\<close>\<close>

definition alert_risk :: "(string \<times> json) list \<Rightarrow> json" where
  "alert_risk kvs = (case map_of kvs ''risk'' of None \<Rightarrow> JStr ''Informational'' | Some v \<Rightarrow> v)"

text \<open>One turn of the loop over the alerts.\<close>

fun categorize_alert ::
  "json \<Rightarrow> (string \<times> int) list \<times> (string \<times> finding list) list \<Rightarrow>
   exn + (string \<times> int) list \<times> (string \<times> finding list) list" where
  "categorize_alert (JObj kvs) (risk_counts, detailed_findings) =
     (let risk = alert_risk kvs in
      case bucket_lookup risk_counts risk of
        Inl e \<Rightarrow> Inl e
      | Inr (k, c) \<Rightarrow>
          (case bucket_lookup detailed_findings risk of
             Inl e \<Rightarrow> Inl e
           | Inr (k', fs) \<Rightarrow>
               Inr (AList.update k (c + 1) risk_counts,
                    AList.update k' (fs @ [make_finding kvs]) detailed_findings)))"
| "categorize_alert _ acc = Inl AttributeError"

fun categorize ::
  "json list \<Rightarrow> (string \<times> int) list \<times> (string \<times> finding list) list \<Rightarrow>
   exn + (string \<times> int) list \<times> (string \<times> finding list) list" where
  "categorize [] acc = Inr acc"
| "categorize (alert # alerts) acc =
     (case categorize_alert alert acc of
        Inl e \<Rightarrow> Inl e
      | Inr acc' \<Rightarrow> categorize alerts acc')"

text \<open>
  Lines 141 to 166: the report dict, or the exception that the loop raised. \<open>len(alerts)\<close>
  is the number of items the loop went through.
\<close>

definition build_report :: "scanner \<Rightarrow> string \<Rightarrow> json \<Rightarrow> exn + report" where
  "build_report self now results =
     (case dict_get results ''alerts'' (JArr []) of
        Inl e \<Rightarrow> Inl e
      | Inr alerts \<Rightarrow>
          (case py_iter alerts of
             Inl e \<Rightarrow> Inl e
           | Inr items \<Rightarrow>
               (case categorize items (risk_counts_init, detailed_findings_init) of
                  Inl e \<Rightarrow> Inl e
                | Inr (risk_counts, detailed_findings) \<Rightarrow>
                    Inr \<lparr> scan_date = now,
                          report_target_url = target_url self,
                          summary = risk_counts,
                          findings = detailed_findings,
                          total_alerts = int (length items) \<rparr>)))"

text \<open>\<open>with open(...) as f: json.dump(report, f)\<close>\<close>

definition write_report :: "'e env \<Rightarrow> report \<Rightarrow> 'e world \<Rightarrow> unit res \<times> 'e world" where
  "write_report env r w =
     (if open_ok env then (Ok (), w\<lparr>report_file := Some r\<rparr>) else (Raised OSError, w))"

definition generate_report :: "'e env \<Rightarrow> scanner \<Rightarrow> json \<Rightarrow> 'e world \<Rightarrow> unit res \<times> 'e world" where
  "generate_report env self results =
     and_then (lift (build_report self (strftime env) results)) (\<lambda>r.
     and_then (write_report env r) (\<lambda>_.
     and_then (requests_get env (HtmlReportReq (target_url self)) None) (\<lambda>_.
       returns ())))"

subsection \<open>\<open>stop_zap\<close>, \<open>run_full_scan\<close> and \<open>main\<close>\<close>

definition stop_zap :: "'e world \<Rightarrow> unit res \<times> 'e world" where
  "stop_zap w = (if zap_process w then (Ok (), emit [Terminate, WaitExit] w) else (Ok (), w))"

text \<open>The body of the \<open>try\<close> of \<open>run_full_scan\<close>.\<close>

definition scan_steps :: "'e env \<Rightarrow> scanner \<Rightarrow> nat \<Rightarrow> 'e world \<Rightarrow> unit res \<times> 'e world" where
  "scan_steps env self fuel =
     and_then (configure_zap env self) (\<lambda>_.
     and_then (run_spider_scan env self fuel) (\<lambda>_.
     and_then (run_active_scan env self fuel) (\<lambda>_.
     and_then (get_scan_results env self) (\<lambda>results.
       generate_report env self results))))"

text \<open>
  \<open>try: m finally: fin\<close>. When \<open>m\<close> is still looping or is blocked, the
  \<open>finally\<close> clause has not been reached. An exception raised by \<open>fin\<close> replaces
  the outcome of \<open>m\<close>.
\<close>

definition try_finally ::
  "('w \<Rightarrow> 'a res \<times> 'w) \<Rightarrow> ('w \<Rightarrow> unit res \<times> 'w) \<Rightarrow> 'w \<Rightarrow> 'a res \<times> 'w" where
  "try_finally m fin w =
     (case m w of
        (OutOfFuel, w1) \<Rightarrow> (OutOfFuel, w1)
      | (Blocked, w1) \<Rightarrow> (Blocked, w1)
      | (r, w1) \<Rightarrow>
          (case fin w1 of
             (Ok _, w2) \<Rightarrow> (r, w2)
           | (Raised e, w2) \<Rightarrow> (Raised e, w2)
           | (OutOfFuel, w2) \<Rightarrow> (OutOfFuel, w2)
           | (Blocked, w2) \<Rightarrow> (Blocked, w2)))"

definition run_full_scan :: "'e env \<Rightarrow> scanner \<Rightarrow> nat \<Rightarrow> 'e world \<Rightarrow> unit res \<times> 'e world" where
  "run_full_scan env self fuel =
     and_then (start_zap_daemon env) (\<lambda>started.
       if \<not> started then (\<lambda>w. (Raised (SystemExit 1), w))
       else try_finally (scan_steps env self fuel) stop_zap)"

text \<open>\<open>ZapBaselineScan(target_url, api_url)\<close>: a new object, with no \<open>zap_process\<close> yet.\<close>

definition init :: "'e env \<Rightarrow> string \<Rightarrow> string option \<Rightarrow> 'e world \<Rightarrow> scanner res \<times> 'e world" where
  "init env target api w =
     (if makedirs_ok env then (Ok (init_fields target api), w\<lparr>zap_process := False\<rparr>)
      else (Raised OSError, w))"

definition main :: "'e env \<Rightarrow> string list \<Rightarrow> nat \<Rightarrow> 'e world \<Rightarrow> unit res \<times> 'e world" where
  "main env argv fuel =
     (if length argv < 2 then (\<lambda>w. (Raised (SystemExit 1), w))
      else and_then (init env (argv ! 1) (if length argv > 2 then Some (argv ! 2) else None))
             (\<lambda>self. run_full_scan env self fuel))"

text \<open>
  The exit code of the interpreter: 0 when \<open>main\<close> returns, the argument of
  \<open>sys.exit\<close>, 1 for an exception nobody caught, and none while it is still running.
\<close>

fun exit_code :: "unit res \<Rightarrow> int option" where
  "exit_code (Ok _) = Some 0"
| "exit_code (Raised (SystemExit n)) = Some n"
| "exit_code (Raised _) = Some 1"
| "exit_code OutOfFuel = None"
| "exit_code Blocked = None"

section \<open>Notions used in the properties\<close>

text \<open>The four severities, in the order of the two dicts of \<open>generate_report\<close>.\<close>

definition severities :: "string list" where
  "severities = [''High'', ''Medium'', ''Low'', ''Informational'']"

text \<open>An alert that the loop puts into bucket \<open>k\<close>, and the finding it appends for it.\<close>

fun has_risk :: "string \<Rightarrow> json \<Rightarrow> bool" where
  "has_risk k (JObj kvs) = (alert_risk kvs = JStr k)"
| "has_risk k _ = False"

fun finding_of :: "json \<Rightarrow> finding" where
  "finding_of (JObj kvs) = make_finding kvs"
| "finding_of _ = make_finding []"

text \<open>An alert with one of the four severities, or with none.\<close>

definition known_risk :: "json \<Rightarrow> bool" where
  "known_risk a = list_ex (\<lambda>k. has_risk k a) severities"

text \<open>The events that a step has added to the trace.\<close>

definition new_events :: "'e world \<Rightarrow> 'e world \<Rightarrow> event list" where
  "new_events w w' = drop (length (trace w)) (trace w')"

text \<open>
  A step from \<open>w\<close> to \<open>w'\<close> that adds only events of a given kind and leaves
  \<open>self.zap_process\<close> as it is.
\<close>

definition steps_to :: "(event \<Rightarrow> bool) \<Rightarrow> 'e world \<Rightarrow> 'e world \<Rightarrow> bool" where
  "steps_to P w w' \<longleftrightarrow>
     zap_process w' = zap_process w \<and> (\<exists>evs. trace w' = trace w @ evs \<and> list_all P evs)"

text \<open>An action all of whose steps are of that kind.\<close>

definition emits_only :: "(event \<Rightarrow> bool) \<Rightarrow> ('e world \<Rightarrow> 'a res \<times> 'e world) \<Rightarrow> bool" where
  "emits_only P m \<longleftrightarrow> (\<forall>w. steps_to P w (snd (m w)))"

text \<open>An action that has finished with some fuel does the same with more.\<close>

definition fuel_stable :: "(nat \<Rightarrow> 'w \<Rightarrow> 'a res \<times> 'w) \<Rightarrow> bool" where
  "fuel_stable f \<longleftrightarrow>
     (\<forall>n w. fst (f n w) = OutOfFuel \<or> f (Suc n) w = f n w)"

text \<open>The request that starts the active scan, and a spider status answer of 100.\<close>

fun ascan_submit :: "event \<Rightarrow> bool" where
  "ascan_submit (Http (AscanScanReq _) _) = True"
| "ascan_submit _ = False"

fun spider_complete :: "event \<Rightarrow> bool" where
  "spider_complete (Http (SpiderStatusReq _) (Response _ (Some j))) =
     (getitem j ''status'' = Inr (JStr ''100''))"
| "spider_complete _ = False"

text \<open>No active scan is started before a spider status of 100 has been seen.\<close>

fun no_ascan_before_complete :: "event list \<Rightarrow> bool" where
  "no_ascan_before_complete [] = True"
| "no_ascan_before_complete (ev # evs) =
     (if spider_complete ev then True
      else \<not> ascan_submit ev \<and> no_ascan_before_complete evs)"

text \<open>The events of starting the engine: the spawn, the version polls and the sleeps.\<close>

fun startup_event :: "event \<Rightarrow> bool" where
  "startup_event Popen = True"
| "startup_event (Http VersionReq _) = True"
| "startup_event (Sleep _) = True"
| "startup_event _ = False"

text \<open>The events of the steps between start and stop: requests other than version polls, and sleeps.\<close>

fun scan_event :: "event \<Rightarrow> bool" where
  "scan_event (Http VersionReq _) = False"
| "scan_event (Http _ _) = True"
| "scan_event (Sleep _) = True"
| "scan_event _ = False"

fun html_export :: "event \<Rightarrow> bool" where
  "html_export (Http (HtmlReportReq _) _) = True"
| "html_export _ = False"

fun version_poll :: "event \<Rightarrow> bool" where
  "version_poll (Http VersionReq _) = True"
| "version_poll _ = False"

text \<open>The seconds spent in \<open>time.sleep\<close>.\<close>

fun slept :: "event list \<Rightarrow> nat" where
  "slept [] = 0"
| "slept (Sleep n # evs) = n + slept evs"
| "slept (_ # evs) = slept evs"

text \<open>A version poll answered with status 200, and one refused at the connection.\<close>

fun ready_answer :: "event \<Rightarrow> bool" where
  "ready_answer (Http VersionReq (Response code _)) = (code = 200)"
| "ready_answer _ = False"

fun conn_refused :: "event \<Rightarrow> bool" where
  "conn_refused (Http VersionReq ConnFail) = True"
| "conn_refused _ = False"

text \<open>
  The readiness wait, told from the engine's side. \<open>version_answers\<close> are the answers
  the engine gives to \<open>n\<close> version polls in a row. An answer ends the wait when it has
  status 200, when it is a failure other than a refused connection, or when it never
  comes. The polls made are the answers up to the first that ends the wait, that one
  included; each is one request, followed by a sleep of 2 seconds when it was refused.
  The verdict is what the wait returns.
\<close>

fun version_answers :: "'e env \<Rightarrow> 'e \<Rightarrow> nat \<Rightarrow> outcome list" where
  "version_answers env e 0 = []"
| "version_answers env e (Suc n) =
     (case respond env e VersionReq of (out, e1) \<Rightarrow> out # version_answers env e1 n)"

fun ends_wait :: "outcome \<Rightarrow> bool" where
  "ends_wait (Response code _) = (code = 200)"
| "ends_wait OtherFail = True"
| "ends_wait Hangs = True"
| "ends_wait ConnFail = False"

fun polls_made :: "outcome list \<Rightarrow> outcome list" where
  "polls_made [] = []"
| "polls_made (out # outs) = (if ends_wait out then [out] else out # polls_made outs)"

fun poll_events :: "outcome \<Rightarrow> event list" where
  "poll_events ConnFail = [Http VersionReq ConnFail, Sleep 2]"
| "poll_events out = [Http VersionReq out]"

fun verdict :: "outcome list \<Rightarrow> bool res" where
  "verdict [] = Ok False"
| "verdict (Response code b # outs) = (if code = 200 then Ok True else verdict outs)"
| "verdict (OtherFail # outs) = Ok False"
| "verdict (Hangs # outs) = Blocked"
| "verdict (ConnFail # outs) = verdict outs"

section \<open>Engine doubles and sample inputs\<close>

text \<open>
  An engine that answers the \<open>n\<close>-th request of a run with the \<open>n\<close>-th outcome of a
  script, and refuses the connection once the script is used up.
\<close>

definition scripted :: "outcome list \<Rightarrow> nat \<Rightarrow> request \<Rightarrow> outcome \<times> nat" where
  "scripted script n rq = (if n < length script then script ! n else ConnFail, Suc n)"

text \<open>
  An engine that cooperates: it is ready at the third version request, the spider is
  complete at its second status request, the active scan at once, and the alerts are the
  given ones.
\<close>

definition cooperative :: "json \<Rightarrow> nat \<Rightarrow> request \<Rightarrow> outcome \<times> nat" where
  "cooperative alerts n rq =
     (case rq of
        VersionReq \<Rightarrow>
          if n < 2 then ConnFail else Response 200 (Some (JObj [(''version'', JStr ''2.14.0'')]))
      | IncludeInContextReq _ \<Rightarrow> Response 200 (Some (JObj [(''Result'', JStr ''OK'')]))
      | HealthReq _ \<Rightarrow> Response 200 None
      | SpiderScanReq _ \<Rightarrow> Response 200 (Some (JObj [(''scan'', JStr ''0'')]))
      | SpiderStatusReq _ \<Rightarrow>
          Response 200 (Some (JObj [(''status'', JStr (if n < 7 then ''50'' else ''100''))]))
      | AscanScanReq _ \<Rightarrow> Response 200 (Some (JObj [(''scan'', JStr ''1'')]))
      | AscanStatusReq _ \<Rightarrow> Response 200 (Some (JObj [(''status'', JStr ''100'')]))
      | AlertsReq _ \<Rightarrow> Response 200 (Some (JObj [(''alerts'', alerts)]))
      | HtmlReportReq _ \<Rightarrow> Response 200 None,
      Suc n)"

text \<open>The cooperative engine, except that the HTML report cannot be fetched.\<close>

definition html_failing :: "json \<Rightarrow> nat \<Rightarrow> request \<Rightarrow> outcome \<times> nat" where
  "html_failing alerts n rq =
     (case rq of HtmlReportReq _ \<Rightarrow> (ConnFail, Suc n) | _ \<Rightarrow> cooperative alerts n rq)"

text \<open>An engine that never comes up: every request is refused at the connection.\<close>

definition refusing :: "nat \<Rightarrow> request \<Rightarrow> outcome \<times> nat" where
  "refusing n rq = (ConnFail, n)"

definition env_with :: "(nat \<Rightarrow> request \<Rightarrow> outcome \<times> nat) \<Rightarrow> nat env" where
  "env_with f =
     \<lparr> respond = f, popen_ok = True, makedirs_ok = True, open_ok = True,
       strftime = ''2024-05-01 12:00:00'' \<rparr>"

definition world0 :: "nat world" where
  "world0 = \<lparr> engine = 0, trace = [], zap_process = False, report_file = None \<rparr>"

definition demo_self :: scanner where
  "demo_self = init_fields ''http://localhost:3000'' None"

definition demo_alerts :: "json list" where
  "demo_alerts =
     [JObj [(''risk'', JStr ''High''), (''alert'', JStr ''Cross Site Scripting'')],
      JObj [(''alert'', JStr ''Cookie without SameSite'')],
      JObj [(''risk'', JStr ''Low''), (''alert'', JStr ''Server Leaks Version'')],
      JObj [(''risk'', JStr ''High''), (''alert'', JStr ''SQL Injection'')]]"

definition demo_results :: json where
  "demo_results = JObj [(''alerts'', JArr demo_alerts)]"

definition critical_results :: json where
  "critical_results = JObj [(''alerts'', JArr [JObj [(''risk'', JStr ''Critical'')]])]"

section \<open>Properties\<close>

subsection \<open>The default API base URL\<close>

lemma str_replace_absent:
  "old \<noteq> [] \<Longrightarrow> \<not> sublist old s \<Longrightarrow> str_replace old new s = s"
proof (induction s)
  case Nil
  then show ?case by simp
next
  case (Cons c cs)
  from Cons.prems have np: "\<not> prefix old (c # cs)" and ns: "\<not> sublist old cs"
    by (auto simp: sublist_Cons_right)
  with Cons show ?case by simp
qed

lemma str_replace_first:
  assumes "old \<noteq> []" and "\<not> sublist old (a @ butlast old)"
  shows "str_replace old new (a @ old @ b) = a @ new @ str_replace old new b"
  using assms(2)
proof (induction a)
  case Nil
  from assms(1) obtain c cs where old: "old = c # cs" by (cases old) auto
  have "str_replace old new (old @ b) = new @ str_replace old new (drop (length old) (old @ b))"
    unfolding old by simp
  then show ?case by simp
next
  case (Cons x a)
  have ns: "\<not> sublist old (a @ butlast old)"
    using Cons.prems by (auto simp: sublist_Cons_right)
  have np: "\<not> prefix old ((x # a) @ old @ b)"
  proof
    assume p: "prefix old ((x # a) @ old @ b)"
    have "(x # a) @ old @ b = ((x # a) @ butlast old) @ (last old # b)"
      using assms(1) by simp
    moreover have "length old \<le> length ((x # a) @ butlast old)"
      by simp
    ultimately have "prefix old ((x # a) @ butlast old)"
      using p by (metis prefix_length_prefix prefixI prefix_order.refl append_assoc)
    then have "sublist old ((x # a) @ butlast old)" by (rule prefix_imp_sublist)
    with Cons.prems show False by simp
  qed
  then show ?case using assms(1) Cons.IH[OF ns] by simp
qed

lemma str_replace_keeps_prefix:
  assumes "old \<noteq> []" "new \<noteq> []" "hd new = hd old" "hd old \<notin> set q"
  shows "prefix q (str_replace old new s) \<Longrightarrow> prefix q s"
  using assms(4)
proof (induction q arbitrary: s)
  case Nil
  then show ?case by simp
next
  case (Cons x q)
  show ?case
  proof (cases s)
    case Nil
    with Cons.prems assms(1) show ?thesis by simp
  next
    case (Cons c cs)
    show ?thesis
    proof (cases "prefix old (c # cs)")
      case True
      then have "str_replace old new s = new @ str_replace old new (drop (length old) s)"
        using assms(1) Cons by simp
      then have "hd (str_replace old new s) = hd old" using assms(2,3) by simp
      moreover have "hd (str_replace old new s) = x" using Cons.prems(1)
        by (metis list.sel(1) prefix_Cons  append_Cons prefixE)
      ultimately show ?thesis using Cons.prems(2) by simp
    next
      case False
      then have "str_replace old new s = c # str_replace old new cs"
        using assms(1) Cons by simp
      with Cons.prems Cons.IH[of cs] Cons show ?thesis by simp
    qed
  qed
qed

lemma port_not_introduced:
  "\<not> sublist '':3000'' r \<Longrightarrow> \<not> sublist '':3000'' ('':8080'' @ r)"
  by (simp add: sublist_Cons_right)

lemma str_replace_hit:
  "old \<noteq> [] \<Longrightarrow> prefix old s \<Longrightarrow>
   str_replace old new s = new @ str_replace old new (drop (length old) s)"
  by (cases s) auto

lemma str_replace_miss:
  "old \<noteq> [] \<Longrightarrow> \<not> prefix old (c # cs) \<Longrightarrow>
   str_replace old new (c # cs) = c # str_replace old new cs"
  by simp

lemma str_replace_port_gone: "\<not> sublist '':3000'' (str_replace '':3000'' '':8080'' s)"
proof (induction s rule: length_induct)
  case (1 s)
  show ?case
  proof (cases "prefix '':3000'' s")
    case True
    have "length (drop (length '':3000'') s) < length s"
      using True by (cases s) auto
    with 1 have "\<not> sublist '':3000'' (str_replace '':3000'' '':8080'' (drop (length '':3000'') s))"
      by blast
    then have "\<not> sublist '':3000''
        ('':8080'' @ str_replace '':3000'' '':8080'' (drop (length '':3000'') s))"
      by (rule port_not_introduced)
    moreover have "str_replace '':3000'' '':8080'' s
        = '':8080'' @ str_replace '':3000'' '':8080'' (drop (length '':3000'') s)"
      using True by (intro str_replace_hit) simp_all
    ultimately show ?thesis by metis
  next
    case False
    show ?thesis
    proof (cases s)
      case Nil
      then show ?thesis by simp
    next
      case (Cons c cs)
      have miss: "str_replace '':3000'' '':8080'' (c # cs) = c # str_replace '':3000'' '':8080'' cs"
        using False Cons by (intro str_replace_miss) simp_all
      have ih: "\<not> sublist '':3000'' (str_replace '':3000'' '':8080'' cs)"
        using 1 Cons by simp
      have "\<not> prefix '':3000'' (c # str_replace '':3000'' '':8080'' cs)"
      proof
        assume p: "prefix '':3000'' (c # str_replace '':3000'' '':8080'' cs)"
        then have c: "c = CHR '':''" and "prefix ''3000'' (str_replace '':3000'' '':8080'' cs)"
          by auto
        then have "prefix ''3000'' cs"
          using str_replace_keeps_prefix[of "'':3000''" "'':8080''" "''3000''" cs] by simp
        with c have "prefix '':3000'' (c # cs)" by simp
        with False Cons show False by metis
      qed
      with ih have "\<not> sublist '':3000'' (c # str_replace '':3000'' '':8080'' cs)"
        by (simp only: sublist_Cons_right) simp
      with miss Cons show ?thesis by metis
    qed
  qed
qed

text \<open>
  Claim C10. When no API base URL is given, \<open>api_url\<close> is the target URL with
  \<open>:3000\<close> replaced by \<open>:8080\<close> the way \<open>str.replace\<close> does it: a target without
  \<open>:3000\<close> is kept as it is, the leftmost occurrence is replaced and the rest of the
  target is treated the same way, and no \<open>:3000\<close> is left in the result.
\<close>

theorem default_api_url:
  "api_url (init_fields target None) = str_replace '':3000'' '':8080'' target
   \<and> (\<not> sublist '':3000'' target \<longrightarrow> api_url (init_fields target None) = target)
   \<and> (\<forall>a b. target = a @ '':3000'' @ b \<and> \<not> sublist '':3000'' (a @ '':300'') \<longrightarrow>
         api_url (init_fields target None) = a @ '':8080'' @ str_replace '':3000'' '':8080'' b)
   \<and> \<not> sublist '':3000'' (api_url (init_fields target None))"
  using str_replace_first[of "'':3000''" _ "'':8080''"]
  by (simp add: init_fields_def str_replace_absent str_replace_port_gone)

theorem default_api_url_witness:
  "\<not> sublist '':3000'' ''http://app:5000''
   \<and> api_url (init_fields ''http://app:5000'' None) = ''http://app:5000''
   \<and> api_url (init_fields ''http://app:3000/x'' None) = ''http://app:8080/x''"
  using default_api_url[of "''http://app:5000''"] default_api_url[of "''http://app:3000/x''"]
  by (simp add: sublist_Cons_right)

subsection \<open>\<open>has_auth\<close>\<close>

text \<open>
  Claim C5. \<open>has_auth\<close> always returns, and it returns \<open>True\<close> exactly when the
  request to the health endpoint is answered with status 401; a connection error, a
  timeout or any other status gives \<open>False\<close>.
\<close>

theorem has_auth_only_401:
  "\<exists>b w1. has_auth env self w = (Ok b, w1)
     \<and> (b \<longleftrightarrow> (\<exists>bd e1. respond env (engine w) (HealthReq (target_url self @ ''/api/health''))
                        = (Response 401 bd, e1)))"
  by (auto simp: has_auth_def requests_get_def request_result_def
      split: prod.splits outcome.splits)


subsection \<open>The report\<close>

lemma sum_update:
  "map_of d k = Some c \<Longrightarrow>
   sum_list (map snd (AList.update k (c + 1) d)) = sum_list (map snd d) + (1::int)"
  by (induction d) (auto split: if_splits)

lemma keys_update:
  "map_of d k = Some c \<Longrightarrow> map fst (AList.update k v d) = map fst d"
  by (induction d) (auto split: if_splits)

lemma bucket_lookup_Inr:
  "bucket_lookup d risk = Inr (k, v) \<longleftrightarrow> risk = JStr k \<and> map_of d k = Some v"
  by (cases risk) (auto split: option.splits)

lemma categorize_alert_Inr:
  "categorize_alert a (rc, df) = Inr (rc', df') \<longleftrightarrow>
     (\<exists>kvs k c fs. a = JObj kvs \<and> alert_risk kvs = JStr k \<and> map_of rc k = Some c
        \<and> map_of df k = Some fs \<and> rc' = AList.update k (c + 1) rc
        \<and> df' = AList.update k (fs @ [make_finding kvs]) df)"
proof (cases a)
  case (JObj kvs)
  show ?thesis
    by (cases "alert_risk kvs")
       (auto simp: JObj Let_def split: option.splits)
qed simp_all

lemma categorize_keys:
  "categorize items (rc, df) = Inr (rc', df') \<Longrightarrow>
   map fst rc' = map fst rc \<and> map fst df' = map fst df"
proof (induction items arbitrary: rc df)
  case Nil
  then show ?case by simp
next
  case (Cons a items)
  then obtain rc1 df1 where step: "categorize_alert a (rc, df) = Inr (rc1, df1)"
    and rest: "categorize items (rc1, df1) = Inr (rc', df')"
    by (auto split: sum.splits)
  from step have "map fst rc1 = map fst rc \<and> map fst df1 = map fst df"
    by (auto simp: categorize_alert_Inr keys_update)
  with Cons.IH[OF rest] show ?case by simp
qed

lemma categorize_sum:
  "categorize items (rc, df) = Inr (rc', df') \<Longrightarrow>
   sum_list (map snd rc') = sum_list (map snd rc) + int (length items)"
proof (induction items arbitrary: rc df)
  case Nil
  then show ?case by simp
next
  case (Cons a items)
  then obtain rc1 df1 where step: "categorize_alert a (rc, df) = Inr (rc1, df1)"
    and rest: "categorize items (rc1, df1) = Inr (rc', df')"
    by (auto split: sum.splits)
  from step have "sum_list (map snd rc1) = sum_list (map snd rc) + 1"
    by (auto simp: categorize_alert_Inr sum_update)
  with Cons.IH[OF rest] show ?case by simp
qed

lemma map_of_update_bucket:
  "map_of (AList.update k v d) k' = (if k' = k then Some v else map_of d k')"
  by (simp add: update_conv')

lemma categorize_buckets:
  "categorize items (rc, df) = Inr (rc', df') \<Longrightarrow> map_of df k = Some fs \<Longrightarrow>
   map_of df' k = Some (fs @ map finding_of (filter (has_risk k) items))"
proof (induction items arbitrary: rc df fs)
  case Nil
  then show ?case by simp
next
  case (Cons a items)
  then obtain rc1 df1 where step: "categorize_alert a (rc, df) = Inr (rc1, df1)"
    and rest: "categorize items (rc1, df1) = Inr (rc', df')"
    by (auto split: sum.splits)
  from step Cons.prems(2)
  have "map_of df1 k = Some (fs @ map finding_of (filter (has_risk k) [a]))"
    by (auto simp: categorize_alert_Inr map_of_update_bucket)
  from Cons.IH[OF rest this] show ?case by simp
qed

lemma categorize_counts:
  "categorize items (rc, df) = Inr (rc', df') \<Longrightarrow> map_of rc k = Some c \<Longrightarrow>
   map_of rc' k = Some (c + int (length (filter (has_risk k) items)))"
proof (induction items arbitrary: rc df c)
  case Nil
  then show ?case by simp
next
  case (Cons a items)
  then obtain rc1 df1 where step: "categorize_alert a (rc, df) = Inr (rc1, df1)"
    and rest: "categorize items (rc1, df1) = Inr (rc', df')"
    by (auto split: sum.splits)
  from step Cons.prems(2)
  have "map_of rc1 k = Some (c + int (length (filter (has_risk k) [a])))"
    by (auto simp: categorize_alert_Inr map_of_update_bucket)
  from Cons.IH[OF rest this] show ?case by simp
qed

lemma categorize_succeeds:
  "map fst rc = severities \<Longrightarrow> map fst df = severities \<Longrightarrow>
   (\<exists>acc. categorize items (rc, df) = Inr acc) \<longleftrightarrow> list_all known_risk items"
proof (induction items arbitrary: rc df)
  case Nil
  then show ?case by simp
next
  case (Cons a items)
  have dom: "\<And>k. k \<in> set severities \<longleftrightarrow> (\<exists>c. map_of rc k = Some c)"
       "\<And>k. k \<in> set severities \<longleftrightarrow> (\<exists>fs. map_of df k = Some fs)"
    using Cons.prems by (metis map_of_eq_None_iff not_Some_eq set_map)+
  have step: "(\<exists>rc1 df1. categorize_alert a (rc, df) = Inr (rc1, df1)) \<longleftrightarrow> known_risk a"
  proof (cases a)
    case (JObj kvs)
    have "known_risk a \<longleftrightarrow> (\<exists>k \<in> set severities. alert_risk kvs = JStr k)"
      by (simp add: known_risk_def list_ex_iff JObj)
    also have "\<dots> \<longleftrightarrow> (\<exists>k c fs. alert_risk kvs = JStr k \<and> map_of rc k = Some c \<and> map_of df k = Some fs)"
      using dom by blast
    finally show ?thesis unfolding categorize_alert_Inr JObj by blast
  qed (simp_all add: known_risk_def list_ex_iff)
  show ?case
  proof (cases "categorize_alert a (rc, df)")
    case (Inl e)
    with step show ?thesis by auto
  next
    case (Inr acc)
    obtain rc1 df1 where acc: "acc = (rc1, df1)" by (cases acc)
    from Inr acc have "map fst rc1 = severities" "map fst df1 = severities"
      using Cons.prems by (auto simp: categorize_alert_Inr keys_update)
    from Cons.IH[OF this] step Inr acc show ?thesis by auto
  qed
qed


lemma build_report_Inr:
  assumes "dict_get results ''alerts'' (JArr []) = Inr (JArr items)"
  shows "build_report self now results = Inr r \<longleftrightarrow>
     (\<exists>rc df. categorize items (risk_counts_init, detailed_findings_init) = Inr (rc, df)
        \<and> r = \<lparr> scan_date = now, report_target_url = target_url self, summary = rc,
                 findings = df, total_alerts = int (length items) \<rparr>)"
  using assms by (auto simp: build_report_def split: sum.splits)

lemma init_keys:
  "map fst risk_counts_init = severities" "map fst detailed_findings_init = severities"
  by (simp_all add: risk_counts_init_def detailed_findings_init_def severities_def)

lemma generate_report_file:
  "build_report self (strftime env) results = Inr r \<Longrightarrow> open_ok env \<Longrightarrow>
   report_file (snd (generate_report env self results w)) = Some r"
  by (simp add: generate_report_def and_then_def lift_def write_report_def requests_get_def
        request_result_def returns_def emit_def split: prod.splits outcome.splits)

text \<open>
  Claim C2. Let \<open>items\<close> be the sequence of findings in the engine's answer (the empty
  sequence when the answer has no \<open>alerts\<close>). The report is generated exactly when
  every finding has one of the four severities or none; a generated report has
  \<open>sum(summary.values()) = total_alerts = len(items)\<close>, its summary has the four
  severities as keys, and it is the report that \<open>generate_report\<close> writes. For the empty
  sequence the report is generated, with every count 0 and \<open>total_alerts\<close> 0.
\<close>

lemma build_report_succeeds:
  assumes "dict_get results ''alerts'' (JArr []) = Inr (JArr items)"
  shows "(\<exists>r. build_report self now results = Inr r) \<longleftrightarrow> list_all known_risk items"
proof -
  have "(\<exists>r. build_report self now results = Inr r)
      \<longleftrightarrow> (\<exists>acc. categorize items (risk_counts_init, detailed_findings_init) = Inr acc)"
    unfolding build_report_Inr[OF assms] by auto
  with categorize_succeeds[OF init_keys, of items] show ?thesis by simp
qed

theorem report_totals:
  assumes "dict_get results ''alerts'' (JArr []) = Inr (JArr items)"
  shows "((\<exists>r. build_report self (strftime env) results = Inr r) \<longleftrightarrow> list_all known_risk items)
     \<and> (\<forall>r. build_report self (strftime env) results = Inr r \<longrightarrow>
           sum_list (map snd (summary r)) = total_alerts r
         \<and> total_alerts r = int (length items)
         \<and> map fst (summary r) = severities
         \<and> (open_ok env \<longrightarrow> report_file (snd (generate_report env self results w)) = Some r))
     \<and> (items = [] \<longrightarrow>
           (\<exists>r. build_report self (strftime env) results = Inr r
              \<and> summary r = [(''High'', 0), (''Medium'', 0), (''Low'', 0), (''Informational'', 0)]
              \<and> total_alerts r = 0))"
proof (intro conjI allI impI)
  show "(\<exists>r. build_report self (strftime env) results = Inr r) \<longleftrightarrow> list_all known_risk items"
    using assms by (rule build_report_succeeds)
next
  fix r assume r: "build_report self (strftime env) results = Inr r"
  then obtain rc df where c: "categorize items (risk_counts_init, detailed_findings_init) = Inr (rc, df)"
    and r_eq: "summary r = rc" "total_alerts r = int (length items)"
    by (auto simp: build_report_Inr[OF assms])
  show "total_alerts r = int (length items)" by (rule r_eq)
  show "sum_list (map snd (summary r)) = total_alerts r"
    using categorize_sum[OF c] r_eq by (simp add: risk_counts_init_def)
  show "map fst (summary r) = severities"
    using categorize_keys[OF c] r_eq init_keys by simp
  show "report_file (snd (generate_report env self results w)) = Some r" if "open_ok env"
    using r that by (rule generate_report_file)
next
  assume "items = []"
  then show "\<exists>r. build_report self (strftime env) results = Inr r
              \<and> summary r = [(''High'', 0), (''Medium'', 0), (''Low'', 0), (''Informational'', 0)]
              \<and> total_alerts r = 0"
    by (simp add: build_report_Inr[OF assms] risk_counts_init_def)
qed

theorem report_totals_witness:
  "dict_get demo_results ''alerts'' (JArr []) = Inr (JArr demo_alerts)
   \<and> list_all known_risk demo_alerts
   \<and> (\<exists>r. build_report demo_self (strftime (env_with (cooperative JNull))) demo_results = Inr r
        \<and> sum_list (map snd (summary r)) = 4 \<and> total_alerts r = 4
        \<and> report_file (snd (generate_report (env_with (cooperative JNull)) demo_self
              demo_results world0)) = Some r)"
proof -
  have h: "dict_get demo_results ''alerts'' (JArr []) = Inr (JArr demo_alerts)"
    by (simp add: demo_results_def)
  have k: "list_all known_risk demo_alerts"
    by (simp add: demo_alerts_def known_risk_def severities_def alert_risk_def)
  have o: "open_ok (env_with (cooperative JNull))"
    by (simp add: env_with_def)
  have l: "int (length demo_alerts) = 4"
    by (simp add: demo_alerts_def)
  note t = report_totals[OF h, of demo_self "env_with (cooperative JNull)" world0]
  from t k obtain r
    where r: "build_report demo_self (strftime (env_with (cooperative JNull))) demo_results = Inr r"
    by blast
  with t o l have "sum_list (map snd (summary r)) = 4 \<and> total_alerts r = 4
      \<and> report_file (snd (generate_report (env_with (cooperative JNull)) demo_self
              demo_results world0)) = Some r"
    by simp
  with h k r show ?thesis by blast
qed

text \<open>
  Claim C9. In a generated report the bucket of each severity holds the findings made
  from the alerts of that severity, in the order in which the engine returned them; so
  every bucket is a subsequence of the findings made from the whole sequence.
\<close>

theorem buckets_keep_order:
  assumes "dict_get results ''alerts'' (JArr []) = Inr (JArr items)"
    and "build_report self now results = Inr r"
  shows "map fst (findings r) = severities
     \<and> (\<forall>k \<in> set severities.
           map_of (findings r) k = Some (map finding_of (filter (has_risk k) items)))
     \<and> (\<forall>k fs. map_of (findings r) k = Some fs \<longrightarrow> subseq fs (map finding_of items))"
proof -
  from assms obtain rc df
    where c: "categorize items (risk_counts_init, detailed_findings_init) = Inr (rc, df)"
    and df: "findings r = df"
    by (auto simp: build_report_Inr[OF assms(1)])
  have keys: "map fst (findings r) = severities"
    using categorize_keys[OF c] df init_keys by simp
  have buckets: "map_of (findings r) k = Some (map finding_of (filter (has_risk k) items))"
    if "k \<in> set severities" for k
  proof -
    from that have "map_of detailed_findings_init k = Some []"
      by (auto simp: severities_def detailed_findings_init_def)
    from categorize_buckets[OF c this] df show ?thesis by simp
  qed
  have "subseq fs (map finding_of items)" if "map_of (findings r) k = Some fs" for k fs
  proof -
    from that have "k \<in> set (map fst (findings r))"
      by (metis map_of_eq_None_iff option.distinct(1) set_map)
    with keys buckets that have "fs = map finding_of (filter (has_risk k) items)" by simp
    then show ?thesis by (simp add: subseq_map)
  qed
  with keys buckets show ?thesis by blast
qed

theorem buckets_keep_order_witness:
  "dict_get demo_results ''alerts'' (JArr []) = Inr (JArr demo_alerts)
   \<and> (\<exists>r. build_report demo_self ''now'' demo_results = Inr r
        \<and> map_of (findings r) ''High''
            = Some [finding_of (demo_alerts ! 0), finding_of (demo_alerts ! 3)])"
proof -
  have h: "dict_get demo_results ''alerts'' (JArr []) = Inr (JArr demo_alerts)"
    by (simp add: demo_results_def)
  have "list_all known_risk demo_alerts"
    by (simp add: demo_alerts_def known_risk_def severities_def alert_risk_def)
  with h obtain r where r: "build_report demo_self ''now'' demo_results = Inr r"
    using build_report_succeeds by blast
  have "''High'' \<in> set severities" by (simp add: severities_def)
  with buckets_keep_order[OF h r]
  have "map_of (findings r) ''High'' = Some (map finding_of (filter (has_risk ''High'') demo_alerts))"
    by blast
  then have "map_of (findings r) ''High''
      = Some [finding_of (demo_alerts ! 0), finding_of (demo_alerts ! 3)]"
    by (simp add: demo_alerts_def alert_risk_def)
  with h r show ?thesis by blast
qed

text \<open>
  An alert without a \<open>risk\<close> field belongs to the \<open>Informational\<close> bucket and to no
  other, so that is where a generated report has its finding.
\<close>

lemma missing_risk_informational:
  "map_of kvs ''risk'' = None \<Longrightarrow> has_risk k (JObj kvs) \<longleftrightarrow> k = ''Informational''"
  by (auto simp: alert_risk_def)

text \<open>
  Claim C3 fails for an alert whose \<open>risk\<close> is none of the four severities: it is not
  put into the \<open>Informational\<close> bucket, \<open>risk_counts[risk]\<close> raises \<open>KeyError\<close>, no
  report is written, and the exception leaves \<open>generate_report\<close>.
\<close>

theorem unknown_risk_raises:
  "build_report demo_self ''now'' critical_results = Inl KeyError
   \<and> fst (generate_report (env_with (cooperative JNull)) demo_self critical_results world0)
       = Raised KeyError
   \<and> report_file (snd (generate_report (env_with (cooperative JNull)) demo_self
        critical_results world0)) = None"
  by (simp add: build_report_def critical_results_def risk_counts_init_def alert_risk_def
        generate_report_def and_then_def lift_def world0_def)


subsection \<open>Steps and their events\<close>

lemma steps_to_refl: "steps_to P w w"
  by (simp add: steps_to_def)

lemma steps_to_trans: "steps_to P w w1 \<Longrightarrow> steps_to P w1 w2 \<Longrightarrow> steps_to P w w2"
  by (auto simp: steps_to_def)

lemma steps_to_mono: "steps_to P w w' \<Longrightarrow> (\<And>ev. P ev \<Longrightarrow> Q ev) \<Longrightarrow> steps_to Q w w'"
  by (auto simp: steps_to_def list_all_iff)

lemma steps_to_new_events:
  "steps_to P w w' \<Longrightarrow> trace w' = trace w @ new_events w w' \<and> list_all P (new_events w w')"
  by (auto simp: steps_to_def new_events_def)

lemma new_events_trans:
  "steps_to P w w1 \<Longrightarrow> steps_to Q w1 w2 \<Longrightarrow> new_events w w2 = new_events w w1 @ new_events w1 w2"
  by (auto simp: steps_to_def new_events_def)

lemma steps_to_emit: "list_all P evs \<Longrightarrow> steps_to P w (emit evs w)"
  by (auto simp: steps_to_def emit_def)

lemma steps_to_sleep: "P (Sleep n) \<Longrightarrow> steps_to P w (sleep n w)"
  by (simp add: sleep_def steps_to_emit)

lemma requests_get_cases:
  assumes "requests_get env rq t w = (r, w')"
  obtains out where "w' = emit [Http rq out] (w\<lparr>engine := snd (respond env (engine w) rq)\<rparr>)"
    and "fst (respond env (engine w) rq) = out"
    and "r = request_result t out"
  using assms by (auto simp: requests_get_def split: prod.splits)

lemma steps_to_requests_get:
  "requests_get env rq t w = (r, w') \<Longrightarrow> (\<And>out. P (Http rq out)) \<Longrightarrow> steps_to P w w'"
  by (erule requests_get_cases) (simp add: steps_to_def emit_def)

lemma requests_get_Ok:
  assumes "requests_get env rq t w = (Ok resp, w1)"
  shows "\<exists>code b. resp = \<lparr>status_code = code, body = b\<rparr>
           \<and> trace w1 = trace w @ [Http rq (Response code b)]"
  using assms
  by (auto elim!: requests_get_cases simp: emit_def request_result_def
      split: outcome.splits option.splits)

lemma and_then_cases:
  assumes "and_then m f w = (r, w')"
  obtains (Ok) a w1 where "m w = (Ok a, w1)" "f a w1 = (r, w')"
  | (Raised) e where "m w = (Raised e, w')" "r = Raised e"
  | (OutOfFuel) "m w = (OutOfFuel, w')" "r = OutOfFuel"
  | (Blocked) "m w = (Blocked, w')" "r = Blocked"
  using assms by (auto simp: and_then_def split: prod.splits res.splits)

lemma lift_cases:
  assumes "lift x w = (r, w')"
  shows "w' = w \<and> r = (case x of Inl e \<Rightarrow> Raised e | Inr a \<Rightarrow> Ok a)"
  using assms by (auto simp: lift_def split: sum.splits)

lemma steps_to_and_then:
  assumes "and_then m f w = (r, w')"
    and "\<And>r1 w1. m w = (r1, w1) \<Longrightarrow> steps_to P w w1"
    and "\<And>a w1 . m w = (Ok a, w1) \<Longrightarrow> f a w1 = (r, w') \<Longrightarrow> steps_to P w1 w'"
  shows "steps_to P w w'"
  using assms(1)
proof (cases rule: and_then_cases)
  case (Ok a w1)
  from assms(2)[OF Ok(1)] assms(3)[OF Ok] show ?thesis by (rule steps_to_trans)
qed (auto intro: assms(2))

subsection \<open>Starting the engine\<close>

text \<open>What the verdict and the polls made say about each other.\<close>

lemma verdict_values: "verdict outs = Ok True \<or> verdict outs = Ok False \<or> verdict outs = Blocked"
  by (induction outs rule: verdict.induct) auto

lemma verdict_True: "verdict outs = Ok True \<longleftrightarrow> (\<exists>b. Response 200 b \<in> set (polls_made outs))"
  by (induction outs rule: verdict.induct) auto

lemma verdict_Blocked: "verdict outs = Blocked \<longleftrightarrow> Hangs \<in> set (polls_made outs)"
  by (induction outs rule: verdict.induct) auto

lemma verdict_OtherFail: "OtherFail \<in> set (polls_made outs) \<Longrightarrow> verdict outs = Ok False"
  by (induction outs rule: verdict.induct) (auto split: if_splits)

lemma verdict_False:
  "verdict outs = Ok False \<Longrightarrow> OtherFail \<notin> set (polls_made outs) \<Longrightarrow> polls_made outs = outs"
  by (induction outs rule: verdict.induct) (auto split: if_splits)

lemma length_polls_made: "length (polls_made outs) \<le> length outs"
  by (induction outs) auto

lemma length_version_answers: "length (version_answers env e n) = n"
  by (induction n arbitrary: e) (auto split: prod.splits)

lemma poll_events_polls:
  "filter version_poll (concat (map poll_events outs)) = map (Http VersionReq) outs"
proof (induction outs)
  case (Cons out outs)
  then show ?case by (cases out) simp_all
qed simp

lemma poll_events_member:
  "Http VersionReq out \<in> set (concat (map poll_events outs)) \<longleftrightarrow> out \<in> set outs"
proof -
  have "Http VersionReq out \<in> set (concat (map poll_events outs))
      \<longleftrightarrow> Http VersionReq out \<in> set (filter version_poll (concat (map poll_events outs)))"
    by simp
  then show ?thesis unfolding poll_events_polls by auto
qed

lemma poll_events_ready:
  "list_ex ready_answer (concat (map poll_events outs)) \<longleftrightarrow> (\<exists>b. Response 200 b \<in> set outs)"
proof (induction outs)
  case (Cons out outs)
  then show ?case by (cases out) auto
qed simp

lemma poll_events_slept:
  "slept (concat (map poll_events outs)) = 2 * length (filter conn_refused (concat (map poll_events outs)))"
proof (induction outs)
  case (Cons out outs)
  then show ?case by (cases out) simp_all
qed simp

lemma poll_events_startup: "list_all startup_event (concat (map poll_events outs))"
proof (induction outs)
  case (Cons out outs)
  then show ?case by (cases out) simp_all
qed simp

text \<open>The loop does what the verdict says, with the polls made as its events.\<close>

lemma wait_for_zap_refines:
  assumes "wait_for_zap env n w = (r, w')"
  shows "trace w' = trace w @ concat (map poll_events (polls_made (version_answers env (engine w) n)))
     \<and> zap_process w' = zap_process w
     \<and> r = (if OtherFail \<in> set (polls_made (version_answers env (engine w) n))
            then Raised RequestException else verdict (version_answers env (engine w) n))"
  using assms
proof (induction n arbitrary: w)
  case 0
  then show ?case by auto
next
  case (Suc n)
  obtain out e1 where rs: "respond env (engine w) VersionReq = (out, e1)"
    by (cases "respond env (engine w) VersionReq")
  let ?w1 = "emit [Http VersionReq out] (w\<lparr>engine := e1\<rparr>)"
  have g: "requests_get env VersionReq None w = (request_result None out, ?w1)"
    by (simp add: requests_get_def rs)
  show ?case
  proof (cases out)
    case ConnFail
    with Suc.prems g have "wait_for_zap env n (sleep 2 ?w1) = (r, w')"
      by (simp add: request_result_def)
    from Suc.IH[OF this] rs ConnFail show ?thesis
      by (simp add: sleep_def emit_def)
  next
    case OtherFail
    with Suc.prems g rs show ?thesis
      by (auto simp: request_result_def emit_def)
  next
    case Hangs
    with Suc.prems g rs show ?thesis
      by (auto simp: request_result_def emit_def)
  next
    case (Response code b)
    show ?thesis
    proof (cases "code = 200")
      case True
      with Response Suc.prems g rs show ?thesis
        by (auto simp: request_result_def emit_def)
    next
      case False
      with Response Suc.prems g have "wait_for_zap env n ?w1 = (r, w')"
        by (simp add: request_result_def)
      from Suc.IH[OF this] rs Response False show ?thesis
        by (simp add: emit_def)
    qed
  qed
qed

lemma start_zap_daemon_refines:
  assumes "start_zap_daemon env w = (r, w')"
  shows "trace w' = trace w @
           (if popen_ok env
            then Popen # concat (map poll_events (polls_made (version_answers env (engine w) 30)))
            else [])
     \<and> r = (if popen_ok env then verdict (version_answers env (engine w) 30) else Ok False)
     \<and> zap_process w' = (popen_ok env \<or> zap_process w)"
proof (cases "popen_ok env")
  case True
  let ?v = "emit [Popen] (w\<lparr>zap_process := True\<rparr>)"
  obtain r1 w1 where wz: "wait_for_zap env max_attempts ?v = (r1, w1)"
    by (cases "wait_for_zap env max_attempts ?v")
  note ref = wait_for_zap_refines[OF wz]
  have e: "engine ?v = engine w" by (simp add: emit_def)
  from assms True wz have w': "w' = w1"
    and r: "r = (case r1 of Raised e \<Rightarrow> if is_Exception e then Ok False else Raised e | _ \<Rightarrow> r1)"
    by (auto simp: start_zap_daemon_def start_zap_daemon_try_def split: res.splits if_splits)
  have "r = verdict (version_answers env (engine w) 30)"
    using ref r verdict_OtherFail[of "version_answers env (engine w) 30"]
      verdict_values[of "version_answers env (engine w) 30"]
    by (auto simp: e max_attempts_def split: if_splits)
  with ref w' True show ?thesis
    by (simp add: e max_attempts_def emit_def)
next
  case False
  with assms show ?thesis
    by (auto simp: start_zap_daemon_def start_zap_daemon_try_def)
qed

lemma start_zap_daemon_result:
  "start_zap_daemon env w = (r, w') \<Longrightarrow> r = Ok True \<or> r = Ok False \<or> r = Blocked"
  using start_zap_daemon_refines[of env w r w'] verdict_values by (auto split: if_splits)

lemma start_zap_daemon_events:
  assumes "start_zap_daemon env w = (r, w')"
  shows "trace w' = trace w @ new_events w w' \<and> list_all startup_event (new_events w w')"
  using start_zap_daemon_refines[OF assms] poll_events_startup
  by (auto simp: new_events_def)

lemma start_zap_daemon_True:
  assumes "start_zap_daemon env w = (Ok True, w')"
  shows "zap_process w'"
  using start_zap_daemon_refines[OF assms] by (auto split: if_splits)

text \<open>
  Claim C6, as the code has it. \<open>start_zap_daemon\<close> never raises. When the process
  cannot be spawned it returns \<open>False\<close> at once. Otherwise it polls the version endpoint
  until an answer ends the wait or 30 polls have been made, and sleeps 2 seconds after
  every poll that was refused at the connection, so at most 60 seconds in all. It returns
  \<open>True\<close> exactly when a poll was answered with status 200 (no other status counts, not
  even another 2xx). It returns \<open>False\<close> when a poll failed in another way, and
  otherwise only after 30 polls. The polls carry no timeout: a poll that is never
  answered blocks the wait, and nothing else does.
\<close>

theorem start_zap_daemon_ready:
  assumes "start_zap_daemon env w = (r, w')"
  shows "new_events w w' =
           (if popen_ok env
            then Popen # concat (map poll_events (polls_made (version_answers env (engine w) 30)))
            else [])
     \<and> r = (if popen_ok env then verdict (version_answers env (engine w) 30) else Ok False)
     \<and> (r = Ok True \<or> r = Ok False \<or> r = Blocked)
     \<and> (r = Ok True \<longleftrightarrow> list_ex ready_answer (new_events w w'))
     \<and> (r = Blocked \<longleftrightarrow> Http VersionReq Hangs \<in> set (new_events w w'))
     \<and> (r = Ok False \<and> popen_ok env \<and> Http VersionReq OtherFail \<notin> set (new_events w w')
          \<longrightarrow> length (filter version_poll (new_events w w')) = 30)
     \<and> (Http VersionReq OtherFail \<in> set (new_events w w') \<longrightarrow> r = Ok False)
     \<and> length (filter version_poll (new_events w w')) \<le> 30
     \<and> slept (new_events w w') = 2 * length (filter conn_refused (new_events w w'))
     \<and> slept (new_events w w') \<le> 60"
proof -
  let ?as = "version_answers env (engine w) 30"
  let ?evs = "concat (map poll_events (polls_made ?as))"
  note ref = start_zap_daemon_refines[OF assms]
  have ne: "new_events w w' = (if popen_ok env then Popen # ?evs else [])"
    using ref by (simp add: new_events_def)
  have r: "r = (if popen_ok env then verdict ?as else Ok False)"
    using ref by simp
  have polls: "length (filter version_poll ?evs) = length (polls_made ?as)"
    by (simp add: poll_events_polls)
  have le: "length (polls_made ?as) \<le> 30"
    using length_polls_made[of ?as] by (simp add: length_version_answers)
  have refused: "length (filter conn_refused ?evs) \<le> length (filter version_poll ?evs)"
  proof -
    have "length (filter conn_refused xs) \<le> length (filter version_poll xs)" for xs
    proof (induction xs)
      case (Cons ev xs)
      have "conn_refused ev \<Longrightarrow> version_poll ev" by (cases ev rule: conn_refused.cases) simp_all
      with Cons show ?case by auto
    qed simp
    then show ?thesis .
  qed
  have full: "length (polls_made ?as) = 30"
    if "verdict ?as = Ok False" "OtherFail \<notin> set (polls_made ?as)"
    using verdict_False[OF that] by (simp add: length_version_answers)
  show ?thesis
  proof (cases "popen_ok env")
    case True
    have "r = Ok True \<or> r = Ok False \<or> r = Blocked"
      using r True verdict_values[of ?as] by simp
    moreover have "r = Ok True \<longleftrightarrow> list_ex ready_answer (new_events w w')"
      using r ne True by (simp add: verdict_True poll_events_ready)
    moreover have "r = Blocked \<longleftrightarrow> Http VersionReq Hangs \<in> set (new_events w w')"
      using r ne True poll_events_member[of Hangs "polls_made ?as"] by (simp add: verdict_Blocked)
    moreover have "r = Ok False \<and> popen_ok env \<and> Http VersionReq OtherFail \<notin> set (new_events w w')
          \<longrightarrow> length (filter version_poll (new_events w w')) = 30"
      using r ne True poll_events_member[of OtherFail "polls_made ?as"] full polls by simp
    moreover have "Http VersionReq OtherFail \<in> set (new_events w w') \<longrightarrow> r = Ok False"
      using r ne True poll_events_member[of OtherFail "polls_made ?as"] verdict_OtherFail[of ?as]
      by simp
    moreover have "length (filter version_poll (new_events w w')) \<le> 30"
      using ne True polls le by simp
    moreover have "slept (new_events w w') = 2 * length (filter conn_refused (new_events w w'))"
      using ne True poll_events_slept[of "polls_made ?as"] by simp
    moreover have "slept (new_events w w') \<le> 60"
      using ne True poll_events_slept[of "polls_made ?as"] refused polls le by simp
    ultimately show ?thesis using ne r by blast
  next
    case False
    with ne r show ?thesis by simp
  qed
qed

theorem start_zap_daemon_ready_witness:
  "fst (start_zap_daemon (env_with (cooperative JNull)) world0) = Ok True
   \<and> new_events world0 (snd (start_zap_daemon (env_with (cooperative JNull)) world0))
      = [Popen, Http VersionReq ConnFail, Sleep 2, Http VersionReq ConnFail, Sleep 2,
         Http VersionReq (Response 200 (Some (JObj [(''version'', JStr ''2.14.0'')])))]
   \<and> slept (new_events world0 (snd (start_zap_daemon (env_with (cooperative JNull)) world0))) = 4"
proof -
  have p: "popen_ok (env_with (cooperative JNull))" by (simp add: env_with_def)
  have a: "polls_made (version_answers (env_with (cooperative JNull)) (engine world0) 30)
      = [ConnFail, ConnFail, Response 200 (Some (JObj [(''version'', JStr ''2.14.0'')]))]"
    by code_simp
  have v: "verdict (version_answers (env_with (cooperative JNull)) (engine world0) 30) = Ok True"
    by code_simp
  from start_zap_daemon_ready[where env = "env_with (cooperative JNull)" and w = world0,
      OF surjective_pairing] p
  have "new_events world0 (snd (start_zap_daemon (env_with (cooperative JNull)) world0))
      = Popen # concat (map poll_events
          (polls_made (version_answers (env_with (cooperative JNull)) (engine world0) 30)))"
    and "fst (start_zap_daemon (env_with (cooperative JNull)) world0)
      = verdict (version_answers (env_with (cooperative JNull)) (engine world0) 30)"
    by simp_all
  then show ?thesis unfolding a v by simp
qed

text \<open>
  Against claim C6 as it is written: an engine that answers every version poll with
  status 204 is never found ready, and the 30 polls follow each other with no sleep.
\<close>

theorem other_2xx_not_ready:
  "fst (start_zap_daemon (env_with (scripted (replicate 30 (Response 204 None)))) world0) = Ok False
   \<and> length (filter version_poll (trace (snd (start_zap_daemon
        (env_with (scripted (replicate 30 (Response 204 None)))) world0)))) = 30
   \<and> slept (trace (snd (start_zap_daemon
        (env_with (scripted (replicate 30 (Response 204 None)))) world0))) = 0"
  by code_simp

subsection \<open>The steps between start and stop\<close>

lemma emits_onlyD: "emits_only P m \<Longrightarrow> m w = (r, w') \<Longrightarrow> steps_to P w w'"
  by (auto simp: emits_only_def dest: spec[of _ w])

lemma emits_only_mono: "emits_only P m \<Longrightarrow> (\<And>ev. P ev \<Longrightarrow> Q ev) \<Longrightarrow> emits_only Q m"
  unfolding emits_only_def by (blast intro: steps_to_mono)

lemma emits_only_and_then:
  assumes "emits_only P m" and "\<And>a. emits_only P (f a)"
  shows "emits_only P (and_then m f)"
  unfolding emits_only_def
proof
  fix w
  obtain r w' where rw: "and_then m f w = (r, w')" by (cases "and_then m f w")
  then have "steps_to P w w'"
  proof (cases rule: and_then_cases)
    case (Ok a w1)
    from emits_onlyD[OF assms(1) Ok(1)] emits_onlyD[OF assms(2) Ok(2)]
    show ?thesis by (rule steps_to_trans)
  qed (auto dest: emits_onlyD[OF assms(1)])
  with rw show "steps_to P w (snd (and_then m f w))" by simp
qed

lemma emits_only_lift: "emits_only P (lift x)"
  by (auto simp: emits_only_def lift_def steps_to_refl split: sum.splits)

lemma emits_only_returns: "emits_only P (returns a)"
  by (simp add: emits_only_def returns_def steps_to_refl)

lemma emits_only_requests_get: "(\<And>out. P (Http rq out)) \<Longrightarrow> emits_only P (requests_get env rq t)"
  unfolding emits_only_def
  by (metis steps_to_requests_get prod.collapse)

lemma emits_only_has_auth:
  "(\<And>u out. P (Http (HealthReq u) out)) \<Longrightarrow> emits_only P (has_auth env self)"
  unfolding emits_only_def
proof
  fix w
  assume p: "\<And>u out. P (Http (HealthReq u) out)"
  obtain r1 w1 where g: "requests_get env (HealthReq (target_url self @ ''/api/health'')) (Some 5) w = (r1, w1)"
    by (cases "requests_get env (HealthReq (target_url self @ ''/api/health'')) (Some 5) w")
  then have "steps_to P w w1" by (rule steps_to_requests_get) (rule p)
  with g show "steps_to P w (snd (has_auth env self w))"
    by (simp add: has_auth_def split: res.splits)
qed

lemma emits_only_configure_zap:
  assumes "\<And>u out. P (Http (HealthReq u) out)" "\<And>u out. P (Http (IncludeInContextReq u) out)"
  shows "emits_only P (configure_zap env self)"
  unfolding configure_zap_def
  by (intro emits_only_and_then emits_only_requests_get emits_only_has_auth assms)
     (simp add: emits_only_def configure_authentication_def returns_def steps_to_refl)

lemma emits_only_poll_status:
  "(\<And>out. P (Http rq out)) \<Longrightarrow> emits_only P (poll_status env rq)"
  unfolding poll_status_def
  by (intro emits_only_and_then emits_only_requests_get emits_only_lift)

lemma emits_only_spider_wait:
  assumes "\<And>out. P (Http (SpiderStatusReq scan_id) out)" "\<And>n. P (Sleep n)"
  shows "emits_only P (spider_wait env scan_id n)"
proof (induction n)
  case 0
  then show ?case by (simp add: emits_only_def steps_to_refl)
next
  case (Suc n)
  show ?case unfolding emits_only_def
  proof
    fix w
    obtain r1 w1 where g: "poll_status env (SpiderStatusReq scan_id) w = (r1, w1)"
      by (cases "poll_status env (SpiderStatusReq scan_id) w")
    have s1: "steps_to P w w1"
      by (rule emits_onlyD[OF emits_only_poll_status g]) (rule assms(1))
    have s2: "steps_to P w1 (sleep 2 w1)" by (rule steps_to_sleep) (rule assms)
    have s3: "steps_to P (sleep 2 w1) (snd (spider_wait env scan_id n (sleep 2 w1)))"
      using Suc by (simp add: emits_only_def)
    from g s1 steps_to_trans[OF s1 steps_to_trans[OF s2 s3]]
    show "steps_to P w (snd (spider_wait env scan_id (Suc n) w))"
      by (simp split: res.splits)
  qed
qed

lemma emits_only_ascan_wait:
  assumes "\<And>out. P (Http (AscanStatusReq scan_id) out)" "\<And>n. P (Sleep n)"
  shows "emits_only P (ascan_wait env scan_id n)"
proof (induction n)
  case 0
  then show ?case by (simp add: emits_only_def steps_to_refl)
next
  case (Suc n)
  show ?case unfolding emits_only_def
  proof
    fix w
    obtain r1 w1 where g: "poll_status env (AscanStatusReq scan_id) w = (r1, w1)"
      by (cases "poll_status env (AscanStatusReq scan_id) w")
    have s1: "steps_to P w w1"
      by (rule emits_onlyD[OF emits_only_poll_status g]) (rule assms(1))
    have s2: "steps_to P w1 (sleep 5 w1)" by (rule steps_to_sleep) (rule assms)
    have s3: "steps_to P (sleep 5 w1) (snd (ascan_wait env scan_id n (sleep 5 w1)))"
      using Suc by (simp add: emits_only_def)
    from g s1 steps_to_trans[OF s1 steps_to_trans[OF s2 s3]]
    show "steps_to P w (snd (ascan_wait env scan_id (Suc n) w))"
      by (simp split: res.splits)
  qed
qed

lemma emits_only_run_spider_scan:
  assumes "\<And>u out. P (Http (SpiderScanReq u) out)" "\<And>i out. P (Http (SpiderStatusReq i) out)"
    "\<And>n. P (Sleep n)"
  shows "emits_only P (run_spider_scan env self fuel)"
  unfolding run_spider_scan_def
  by (intro emits_only_and_then emits_only_requests_get emits_only_lift emits_only_returns
        emits_only_spider_wait assms)

lemma emits_only_run_active_scan:
  assumes "\<And>u out. P (Http (AscanScanReq u) out)" "\<And>i out. P (Http (AscanStatusReq i) out)"
    "\<And>n. P (Sleep n)"
  shows "emits_only P (run_active_scan env self fuel)"
  unfolding run_active_scan_def
  by (intro emits_only_and_then emits_only_requests_get emits_only_lift emits_only_returns
        emits_only_ascan_wait assms)

lemma emits_only_get_scan_results:
  assumes "\<And>u out. P (Http (AlertsReq u) out)"
  shows "emits_only P (get_scan_results env self)"
  unfolding get_scan_results_def
  by (intro emits_only_and_then emits_only_requests_get emits_only_lift assms)

lemma emits_only_write_report: "emits_only P (write_report env r)"
  by (simp add: emits_only_def write_report_def steps_to_def)

lemma emits_only_generate_report:
  assumes "\<And>u out. P (Http (HtmlReportReq u) out)"
  shows "emits_only P (generate_report env self results)"
  unfolding generate_report_def
  by (intro emits_only_and_then emits_only_requests_get emits_only_lift emits_only_returns
        emits_only_write_report assms)

lemma emits_only_scan_steps: "emits_only scan_event (scan_steps env self fuel)"
  unfolding scan_steps_def
  by (intro emits_only_and_then emits_only_configure_zap emits_only_run_spider_scan
        emits_only_run_active_scan emits_only_get_scan_results emits_only_generate_report)
     simp_all

subsection \<open>The spider is complete before the active scan starts\<close>

lemma poll_status_Ok:
  assumes "poll_status env rq w = (Ok st, w1)"
  shows "\<exists>code j. new_events w w1 = [Http rq (Response code (Some j))]
           \<and> getitem j ''status'' = Inr st"
proof -
  from assms obtain resp where g: "requests_get env rq None w = (Ok resp, w1)"
    and rest: "\<exists>j. response_json resp = Inr j \<and> getitem j ''status'' = Inr st"
    unfolding poll_status_def
    by (auto elim!: and_then_cases dest!: lift_cases split: sum.splits)
  from requests_get_Ok[OF g] obtain code b
    where w1: "trace w1 = trace w @ [Http rq (Response code b)]" and b: "body resp = b"
    by auto
  from rest b obtain j where "b = Some j" "getitem j ''status'' = Inr st"
    by (auto simp: response_json_def split: option.splits)
  with w1 show ?thesis by (auto simp: new_events_def)
qed

lemma spider_wait_Ok:
  "spider_wait env scan_id n w = (Ok u, w') \<Longrightarrow> list_ex spider_complete (new_events w w')"
proof (induction n arbitrary: w)
  case 0
  then show ?case by simp
next
  case (Suc n)
  obtain r1 w1 where g: "poll_status env (SpiderStatusReq scan_id) w = (r1, w1)"
    by (cases "poll_status env (SpiderStatusReq scan_id) w")
  with Suc.prems obtain st where r1: "r1 = Ok st" by (cases r1) auto
  have s1: "steps_to (\<lambda>_. True) w w1"
    by (rule emits_onlyD[OF emits_only_poll_status g]) simp
  from poll_status_Ok[OF g[unfolded r1]] obtain code j
    where ev: "new_events w w1 = [Http (SpiderStatusReq scan_id) (Response code (Some j))]"
      and st: "getitem j ''status'' = Inr st" by blast
  show ?case
  proof (cases "st = JStr ''100''")
    case True
    with Suc.prems g r1 have "w' = w1" by simp
    with ev st True show ?thesis by simp
  next
    case False
    with Suc.prems g r1 have rest: "spider_wait env scan_id n (sleep 2 w1) = (Ok u, w')" by simp
    have s2: "steps_to (\<lambda>_. True) w1 (sleep 2 w1)" by (rule steps_to_sleep) simp
    have s3: "steps_to (\<lambda>_. True) (sleep 2 w1) w'"
      by (rule emits_onlyD[OF emits_only_spider_wait rest]) simp_all
    have "new_events w w' = new_events w (sleep 2 w1) @ new_events (sleep 2 w1) w'"
      using steps_to_trans[OF s1 s2] s3 by (rule new_events_trans)
    with Suc.IH[OF rest] show ?thesis by (auto simp: list_ex_iff)
  qed
qed

lemma run_spider_scan_Ok:
  assumes "run_spider_scan env self fuel w = (Ok scan_id, w')"
  shows "list_ex spider_complete (new_events w w')"
proof -
  from assms obtain resp w1 u where g: "requests_get env (SpiderScanReq (target_url self)) None w = (Ok resp, w1)"
    and sw: "spider_wait env scan_id fuel w1 = (Ok u, w')"
    unfolding run_spider_scan_def
    by (auto elim!: and_then_cases dest!: lift_cases simp: returns_def split: sum.splits)
  have s1: "steps_to (\<lambda>_. True) w w1" using g by (rule steps_to_requests_get) simp
  have s2: "steps_to (\<lambda>_. True) w1 w'"
    by (rule emits_onlyD[OF emits_only_spider_wait sw]) simp_all
  from new_events_trans[OF s1 s2] spider_wait_Ok[OF sw] show ?thesis
    by (auto simp: list_ex_iff)
qed

lemma no_ascan_trivial:
  "list_all (\<lambda>ev. \<not> ascan_submit ev) evs \<Longrightarrow> no_ascan_before_complete evs"
  by (induction evs) auto

lemma no_ascan_append:
  "list_all (\<lambda>ev. \<not> ascan_submit ev) xs \<Longrightarrow>
   no_ascan_before_complete (xs @ ys) \<longleftrightarrow> list_ex spider_complete xs \<or> no_ascan_before_complete ys"
  by (induction xs) auto

lemma no_ascan_append_tail:
  "no_ascan_before_complete xs \<Longrightarrow> list_all (\<lambda>ev. \<not> ascan_submit ev) ys \<Longrightarrow>
   no_ascan_before_complete (xs @ ys)"
  by (induction xs) (auto simp: no_ascan_trivial)

lemma scan_steps_order:
  assumes "scan_steps env self fuel w = (r, w')"
  shows "no_ascan_before_complete (new_events w w')"
proof -
  let ?pre = "\<lambda>ev. scan_event ev \<and> \<not> ascan_submit ev"
  have conf: "emits_only ?pre (configure_zap env self)"
    by (rule emits_only_configure_zap) simp_all
  have spider: "emits_only ?pre (run_spider_scan env self fuel)"
    by (rule emits_only_run_spider_scan) simp_all
  have quiet: "no_ascan_before_complete (new_events w v)" if "steps_to ?pre w v" for v
    using steps_to_new_events[OF that] by (intro no_ascan_trivial) (simp add: list_all_iff)
  from assms show ?thesis unfolding scan_steps_def
  proof (cases rule: and_then_cases)
    case (Ok a w1)
    note s1 = emits_onlyD[OF conf Ok(1)]
    from Ok(2) show ?thesis
    proof (cases rule: and_then_cases)
      case (Ok scan_id w2)
      note s2 = emits_onlyD[OF spider Ok(1)]
      have "emits_only scan_event
          (and_then (run_active_scan env self fuel) (\<lambda>_.
           and_then (get_scan_results env self) (\<lambda>results.
             generate_report env self results)))"
        by (intro emits_only_and_then emits_only_run_active_scan emits_only_get_scan_results
              emits_only_generate_report) simp_all
      from emits_onlyD[OF this Ok(2)] have s3: "steps_to scan_event w2 w'" .
      have e: "new_events w w' = new_events w w2 @ new_events w2 w'"
        using steps_to_trans[OF s1 s2] s3 by (rule new_events_trans)
      have "list_ex spider_complete (new_events w w2)"
        using new_events_trans[OF s1 s2] run_spider_scan_Ok[OF Ok(1)] by (auto simp: list_ex_iff)
      moreover have "list_all (\<lambda>ev. \<not> ascan_submit ev) (new_events w w2)"
        using steps_to_new_events[OF steps_to_trans[OF s1 s2]] by (simp add: list_all_iff)
      ultimately show ?thesis by (simp add: e no_ascan_append)
    qed (use s1 emits_onlyD[OF spider] in \<open>auto intro!: quiet intro: steps_to_trans\<close>)
  qed (use emits_onlyD[OF conf] in \<open>auto intro!: quiet\<close>)
qed

subsection \<open>The shape of a run\<close>

lemma run_full_scan_cases:
  assumes "run_full_scan env self fuel w = (r, w')"
  obtains (not_started) "start_zap_daemon env w = (Ok False, w')" "r = Raised (SystemExit 1)"
  | (blocked_start) "start_zap_daemon env w = (Blocked, w')" "r = Blocked"
  | (looping) w1 where "start_zap_daemon env w = (Ok True, w1)"
      "scan_steps env self fuel w1 = (r, w')" "r = OutOfFuel \<or> r = Blocked"
  | (finished) w1 w2 where "start_zap_daemon env w = (Ok True, w1)"
      "scan_steps env self fuel w1 = (r, w2)" "r \<noteq> OutOfFuel" "r \<noteq> Blocked"
      "w' = emit [Terminate, WaitExit] w2"
proof -
  obtain r0 w1 where st: "start_zap_daemon env w = (r0, w1)" by (cases "start_zap_daemon env w")
  from start_zap_daemon_result[OF st]
  consider "r0 = Ok False" | "r0 = Blocked" | "r0 = Ok True" by blast
  then show thesis
  proof cases
    case 1
    with st assms have "w' = w1" "r = Raised (SystemExit 1)"
      by (auto simp: run_full_scan_def and_then_def)
    with st 1 not_started show thesis by simp
  next
    case 2
    with st assms have "w' = w1" "r = Blocked"
      by (auto simp: run_full_scan_def and_then_def)
    with st 2 blocked_start show thesis by simp
  next
    case 3
    obtain r2 w2 where sc: "scan_steps env self fuel w1 = (r2, w2)"
      by (cases "scan_steps env self fuel w1")
    from st 3 have "zap_process w1" by (auto dest: start_zap_daemon_True)
    with emits_onlyD[OF emits_only_scan_steps sc] have zp: "zap_process w2"
      by (simp add: steps_to_def)
    from st 3 assms have tf: "try_finally (scan_steps env self fuel) stop_zap w1 = (r, w')"
      by (auto simp: run_full_scan_def and_then_def)
    show thesis
    proof (cases "r2 = OutOfFuel \<or> r2 = Blocked")
      case True
      with tf sc have "w' = w2" "r = r2" by (auto simp: try_finally_def)
      with st 3 sc True looping show thesis by simp
    next
      case False
      with tf sc zp have "w' = emit [Terminate, WaitExit] w2" "r = r2"
        by (auto simp: try_finally_def stop_zap_def split: res.splits)
      with st 3 sc False finished show thesis by simp
    qed
  qed
qed

lemma new_events_append:
  "trace w1 = trace w @ xs \<Longrightarrow> trace w2 = trace w1 @ ys \<Longrightarrow> new_events w w2 = xs @ ys"
  by (simp add: new_events_def)

lemma count_list_none: "list_all P evs \<Longrightarrow> \<not> P x \<Longrightarrow> count_list evs x = 0"
  by (induction evs) auto

lemma run_full_scan_events:
  assumes "run_full_scan env self fuel w = (r, w')"
  obtains (not_started) "r = Raised (SystemExit 1)" "fst (start_zap_daemon env w) = Ok False"
      "list_all startup_event (new_events w w')"
  | (blocked_start) "r = Blocked" "fst (start_zap_daemon env w) = Blocked"
      "list_all startup_event (new_events w w')"
  | (looping) xs ys where "r = OutOfFuel \<or> r = Blocked" "fst (start_zap_daemon env w) = Ok True"
      "new_events w w' = xs @ ys"
      "list_all startup_event xs" "list_all scan_event ys" "no_ascan_before_complete ys"
  | (finished) xs ys where "r \<noteq> OutOfFuel" "r \<noteq> Blocked"
      "fst (start_zap_daemon env w) = Ok True"
      "new_events w w' = xs @ ys @ [Terminate, WaitExit]"
      "list_all startup_event xs" "list_all scan_event ys" "no_ascan_before_complete ys"
  using assms
proof (cases rule: run_full_scan_cases)
  case not_started
  have "fst (start_zap_daemon env w) = Ok False" by (simp add: not_started(1))
  moreover have "list_all startup_event (new_events w w')"
    using start_zap_daemon_events[OF not_started(1)] by blast
  ultimately show ?thesis using not_started(2) by (intro that(1))
next
  case blocked_start
  have "fst (start_zap_daemon env w) = Blocked" by (simp add: blocked_start(1))
  moreover have "list_all startup_event (new_events w w')"
    using start_zap_daemon_events[OF blocked_start(1)] by blast
  ultimately show ?thesis using blocked_start(2) by (intro that(2))
next
  case (looping w1)
  have st: "trace w1 = trace w @ new_events w w1" "list_all startup_event (new_events w w1)"
    using start_zap_daemon_events[OF looping(1)] by blast+
  have sc: "trace w' = trace w1 @ new_events w1 w'" "list_all scan_event (new_events w1 w')"
    using steps_to_new_events[OF emits_onlyD[OF emits_only_scan_steps looping(2)]] by blast+
  have e: "new_events w w' = new_events w w1 @ new_events w1 w'"
    using st(1) sc(1) by (rule new_events_append)
  have t: "fst (start_zap_daemon env w) = Ok True" by (simp add: looping(1))
  show ?thesis
    by (rule that(3)[OF looping(3) t e st(2) sc(2) scan_steps_order[OF looping(2)]])
next
  case (finished w1 w2)
  have st: "trace w1 = trace w @ new_events w w1" "list_all startup_event (new_events w w1)"
    using start_zap_daemon_events[OF finished(1)] by blast+
  have sc: "trace w2 = trace w1 @ new_events w1 w2" "list_all scan_event (new_events w1 w2)"
    using steps_to_new_events[OF emits_onlyD[OF emits_only_scan_steps finished(2)]] by blast+
  have "trace w' = trace w1 @ (new_events w1 w2 @ [Terminate, WaitExit])"
    using sc(1) finished(5) by (simp add: emit_def)
  with st(1) have e: "new_events w w' = new_events w w1 @ new_events w1 w2 @ [Terminate, WaitExit]"
    by (rule new_events_append)
  have t: "fst (start_zap_daemon env w) = Ok True" by (simp add: finished(1))
  show ?thesis
    by (rule that(4)[OF finished(3,4) t e st(2) sc(2) scan_steps_order[OF finished(2)]])
qed

text \<open>
  Claim C4. In every run, also one that is still polling when the fuel is used up or that
  is blocked in a request, no request that starts the active scan is sent before a
  spider status request has been answered with status 100.
\<close>

theorem spider_complete_before_ascan:
  "no_ascan_before_complete (new_events w (snd (run_full_scan env self fuel w)))"
proof -
  obtain r w' where run: "run_full_scan env self fuel w = (r, w')"
    by (cases "run_full_scan env self fuel w")
  have quiet: "list_all (\<lambda>ev. \<not> ascan_submit ev) xs" if "list_all startup_event xs" for xs
    using that by (induction xs) (auto elim: startup_event.elims)
  from run have "no_ascan_before_complete (new_events w w')"
  proof (cases rule: run_full_scan_events)
    case not_started
    then show ?thesis by (intro no_ascan_trivial quiet)
  next
    case blocked_start
    then show ?thesis by (intro no_ascan_trivial quiet)
  next
    case (looping xs ys)
    then show ?thesis by (simp add: no_ascan_append quiet)
  next
    case (finished xs ys)
    then have "no_ascan_before_complete (ys @ [Terminate, WaitExit])"
      by (intro no_ascan_append_tail) simp_all
    with finished show ?thesis by (simp add: no_ascan_append quiet)
  qed
  with run show ?thesis by simp
qed

theorem spider_complete_before_ascan_witness:
  "no_ascan_before_complete
     (new_events world0 (snd (run_full_scan (env_with (cooperative (JArr demo_alerts))) demo_self 5 world0)))
   \<and> list_ex ascan_submit
     (new_events world0 (snd (run_full_scan (env_with (cooperative (JArr demo_alerts))) demo_self 5 world0)))"
proof -
  have "list_ex ascan_submit
     (new_events world0 (snd (run_full_scan (env_with (cooperative (JArr demo_alerts))) demo_self 5 world0)))"
    by code_simp
  with spider_complete_before_ascan[of world0 "env_with (cooperative (JArr demo_alerts))" demo_self 5]
  show ?thesis by (rule conjI)
qed

subsection \<open>Shutting the engine down\<close>

text \<open>
  Once the engine has started, every run that leaves \<open>run_full_scan\<close>, by returning or
  by an exception, ends with one \<open>terminate\<close> and one \<open>wait\<close>, and has no other.
\<close>

lemma shutdown_once_after_start:
  assumes "run_full_scan env self fuel w = (r, w')"
    and "fst (start_zap_daemon env w) = Ok True" and "r \<noteq> OutOfFuel" and "r \<noteq> Blocked"
  shows "count_list (new_events w w') Terminate = 1
     \<and> count_list (new_events w w') WaitExit = 1
     \<and> (\<exists>evs. new_events w w' = evs @ [Terminate, WaitExit])"
  using assms(1)
proof (cases rule: run_full_scan_events)
  case (finished xs ys)
  then show ?thesis
    by (auto simp: count_list_none[of startup_event] count_list_none[of scan_event])
qed (use assms in auto)


lemma emit_emit: "emit ys (emit xs w) = emit (xs @ ys) w"
  by (simp add: emit_def)

lemma never_ready:
  "wait_for_zap (env_with refusing) n w
   = (Ok False, emit (concat (replicate n [Http VersionReq ConnFail, Sleep 2])) w)"
proof (induction n arbitrary: w)
  case 0
  then show ?case by (simp add: emit_def)
next
  case (Suc n)
  have "requests_get (env_with refusing) VersionReq None w
      = (Raised ConnectionError, emit [Http VersionReq ConnFail] w)"
    by (simp add: requests_get_def request_result_def env_with_def refusing_def)
  then show ?case by (simp add: Suc sleep_def emit_emit)
qed

lemma count_list_concat_replicate:
  "x \<notin> set xs \<Longrightarrow> count_list (concat (replicate n xs)) x = 0"
  by (induction n) (simp_all add: count_list_0_iff)

lemma start_never_ready:
  "start_zap_daemon (env_with refusing) w
   = (Ok False, emit (concat (replicate 30 [Http VersionReq ConnFail, Sleep 2]))
        (emit [Popen] (w\<lparr>zap_process := True\<rparr>)))"
  by (simp add: start_zap_daemon_def start_zap_daemon_try_def never_ready max_attempts_def)
     (simp add: env_with_def)

text \<open>
  Claim C1 fails where the engine was spawned and never became ready: \<open>sys.exit(1)\<close>
  stands before the \<open>try\<close>, so the process that \<open>Popen\<close> created is neither
  terminated nor waited for.
\<close>

theorem shutdown_skipped_when_not_ready:
  "fst (run_full_scan (env_with refusing) demo_self 5 world0) = Raised (SystemExit 1)
   \<and> zap_process (snd (run_full_scan (env_with refusing) demo_self 5 world0))
   \<and> count_list (trace (snd (run_full_scan (env_with refusing) demo_self 5 world0))) Popen = 1
   \<and> count_list (trace (snd (run_full_scan (env_with refusing) demo_self 5 world0))) Terminate = 0
   \<and> count_list (trace (snd (run_full_scan (env_with refusing) demo_self 5 world0))) WaitExit = 0"
proof -
  have "run_full_scan (env_with refusing) demo_self 5 world0
      = (Raised (SystemExit 1), emit (concat (replicate 30 [Http VersionReq ConnFail, Sleep 2]))
           (emit [Popen] (world0\<lparr>zap_process := True\<rparr>)))"
    by (simp add: run_full_scan_def and_then_def start_never_ready)
  then show ?thesis
    by (simp add: emit_def world0_def count_list_concat_replicate)
qed

subsection \<open>The HTML export\<close>

lemma and_then_assoc: "and_then (and_then m f) g = and_then m (\<lambda>a. and_then (f a) g)"
  by (rule ext) (simp add: and_then_def split: prod.splits res.splits)

lemma startup_no_html: "startup_event ev \<Longrightarrow> \<not> html_export ev"
  by (cases ev rule: startup_event.cases) simp_all

lemma generate_report_cases:
  assumes "generate_report env self results w = (r, w')"
  obtains (no_report) e where "r = Raised e" "w' = w"
  | (written) rep out where "build_report self (strftime env) results = Inr rep" "open_ok env"
      "report_file w' = Some rep"
      "trace w' = trace w @ [Http (HtmlReportReq (target_url self)) out]"
      "r = (case out of ConnFail \<Rightarrow> Raised ConnectionError | OtherFail \<Rightarrow> Raised RequestException
            | Hangs \<Rightarrow> Blocked | Response code b \<Rightarrow> Ok ())"
proof (cases "build_report self (strftime env) results")
  case (Inl e)
  with assms have "r = Raised e" "w' = w"
    by (simp_all add: generate_report_def and_then_def lift_def)
  then show ?thesis by (rule no_report)
next
  case (Inr rep)
  show ?thesis
  proof (cases "open_ok env")
    case False
    with Inr assms have "r = Raised OSError" "w' = w"
      by (simp_all add: generate_report_def and_then_def lift_def write_report_def)
    then show ?thesis by (rule no_report)
  next
    case True
    obtain out e1 where rs: "respond env (engine w) (HtmlReportReq (target_url self)) = (out, e1)"
      by (cases "respond env (engine w) (HtmlReportReq (target_url self))")
    from Inr True rs assms
    have "w' = emit [Http (HtmlReportReq (target_url self)) out]
          (w\<lparr>report_file := Some rep, engine := e1\<rparr>)"
      and r: "r = (case out of ConnFail \<Rightarrow> Raised ConnectionError
            | OtherFail \<Rightarrow> Raised RequestException
            | Hangs \<Rightarrow> Blocked | Response code b \<Rightarrow> Ok ())"
      by (auto simp: generate_report_def and_then_def lift_def write_report_def returns_def
          requests_get_def request_result_def split: outcome.splits)
    then have "report_file w' = Some rep"
      "trace w' = trace w @ [Http (HtmlReportReq (target_url self)) out]"
      by (simp_all add: emit_def)
    with Inr True r show ?thesis by (intro written)
  qed
qed

lemma get_scan_results_Ok:
  assumes "get_scan_results env self w = (Ok results, w1)"
  shows "\<exists>code. trace w1 = trace w @ [Http (AlertsReq (target_url self)) (Response code (Some results))]"
proof -
  from assms obtain resp where g: "requests_get env (AlertsReq (target_url self)) None w = (Ok resp, w1)"
    and j: "response_json resp = Inr results"
    unfolding get_scan_results_def
    by (auto elim!: and_then_cases dest!: lift_cases split: sum.splits)
  from requests_get_Ok[OF g] j show ?thesis
    by (auto simp: response_json_def split: option.splits)
qed

text \<open>The steps of the \<open>try\<close> block before the alerts are fetched.\<close>

lemma scan_steps_split:
  "scan_steps env self fuel =
     and_then
       (and_then (configure_zap env self) (\<lambda>_.
        and_then (run_spider_scan env self fuel) (\<lambda>_.
          run_active_scan env self fuel)))
       (\<lambda>_. and_then (get_scan_results env self) (generate_report env self))"
  by (simp add: scan_steps_def and_then_assoc)

lemma scan_steps_cases:
  assumes "scan_steps env self fuel w = (r, w')"
  obtains (before_report) "steps_to (\<lambda>ev. scan_event ev \<and> \<not> html_export ev) w w'" "r \<noteq> Ok ()"
  | (report) pre code results rep out where
      "new_events w w' = pre @ [Http (AlertsReq (target_url self)) (Response code (Some results)),
                               Http (HtmlReportReq (target_url self)) out]"
      "list_all (\<lambda>ev. scan_event ev \<and> \<not> html_export ev) pre"
      "build_report self (strftime env) results = Inr rep"
      "report_file w' = Some rep"
      "r = (case out of ConnFail \<Rightarrow> Raised ConnectionError | OtherFail \<Rightarrow> Raised RequestException
            | Hangs \<Rightarrow> Blocked | Response code b \<Rightarrow> Ok ())"
proof -
  let ?P = "\<lambda>ev. scan_event ev \<and> \<not> html_export ev"
  have pre: "emits_only ?P
       (and_then (configure_zap env self) (\<lambda>_.
        and_then (run_spider_scan env self fuel) (\<lambda>_.
          run_active_scan env self fuel)))"
    by (intro emits_only_and_then emits_only_configure_zap emits_only_run_spider_scan
        emits_only_run_active_scan) simp_all
  have get: "emits_only ?P (get_scan_results env self)"
    by (rule emits_only_get_scan_results) simp
  from assms[unfolded scan_steps_split] show thesis
  proof (cases rule: and_then_cases)
    case (Ok a w1)
    note s1 = emits_onlyD[OF pre Ok(1)]
    from Ok(2) show ?thesis
    proof (cases rule: and_then_cases)
      case (Ok results w2)
      note s2 = steps_to_trans[OF s1 emits_onlyD[OF get Ok(1)]]
      from get_scan_results_Ok[OF Ok(1)] obtain code
        where w2: "trace w2 = trace w1 @ [Http (AlertsReq (target_url self)) (Response code (Some results))]"
        by blast
      from Ok(2) show ?thesis
      proof (cases rule: generate_report_cases)
        case (no_report e)
        with s2 show ?thesis by (intro before_report) simp_all
      next
        case (written rep out)
        have "trace w1 = trace w @ new_events w w1" "list_all ?P (new_events w w1)"
          using steps_to_new_events[OF s1] by blast+
        moreover from w2 written(4)
        have "trace w' = trace w1 @ [Http (AlertsReq (target_url self)) (Response code (Some results)),
              Http (HtmlReportReq (target_url self)) out]"
          by simp
        ultimately have "new_events w w' = new_events w w1 @
              [Http (AlertsReq (target_url self)) (Response code (Some results)),
               Http (HtmlReportReq (target_url self)) out]"
          by (intro new_events_append)
        then show ?thesis
          using \<open>list_all ?P (new_events w w1)\<close> written(1,3,5) by (rule report)
      qed
    next
      case (Raised e)
      from steps_to_trans[OF s1 emits_onlyD[OF get Raised(1)]] Raised(2) show ?thesis
        by (intro before_report) simp_all
    next
      case OutOfFuel
      from steps_to_trans[OF s1 emits_onlyD[OF get OutOfFuel(1)]] OutOfFuel(2) show ?thesis
        by (intro before_report) simp_all
    next
      case Blocked
      from steps_to_trans[OF s1 emits_onlyD[OF get Blocked(1)]] Blocked(2) show ?thesis
        by (intro before_report) simp_all
    qed
  next
    case (Raised e)
    from emits_onlyD[OF pre Raised(1)] Raised(2) show ?thesis by (intro before_report) simp_all
  next
    case OutOfFuel
    from emits_onlyD[OF pre OutOfFuel(1)] OutOfFuel(2) show ?thesis by (intro before_report) simp_all
  next
    case Blocked
    from emits_onlyD[OF pre Blocked(1)] Blocked(2) show ?thesis by (intro before_report) simp_all
  qed
qed

lemma scan_steps_html:
  assumes "scan_steps env self fuel w = (r, w')"
    and "Http (HtmlReportReq u) out \<in> set (new_events w w')"
  shows "\<exists>pre code results rep.
       new_events w w' = pre @ [Http (AlertsReq (target_url self)) (Response code (Some results)),
                                Http (HtmlReportReq (target_url self)) out]
     \<and> list_all (\<lambda>ev. scan_event ev \<and> \<not> html_export ev) pre
     \<and> build_report self (strftime env) results = Inr rep
     \<and> report_file w' = Some rep
     \<and> r = (case out of ConnFail \<Rightarrow> Raised ConnectionError | OtherFail \<Rightarrow> Raised RequestException
            | Hangs \<Rightarrow> Blocked | Response code b \<Rightarrow> Ok ())"
  using assms(1)
proof (cases rule: scan_steps_cases)
  case before_report
  from steps_to_new_events[OF before_report(1)] assms(2) show ?thesis
    by (auto simp: list_all_iff)
next
  case (report pre code results rep out')
  from report(1,2) assms(2) have "out = out'" by (auto simp: list_all_iff)
  with report show ?thesis by blast
qed

text \<open>
  Claim C7, as the code has it. Whenever a run has sent the HTML export request, that
  request follows the answer to the alerts request, and the JSON report built from the
  alerts of that answer is in the report file, whatever the outcome of the HTML export.
  A response is ignored, whatever its status and body, and the run succeeds; an exception
  raised by the request is not caught and leaves \<open>run_full_scan\<close>. In both cases one
  \<open>terminate\<close> and one \<open>wait\<close> follow the request. The request carries no timeout:
  when it is never answered the run is blocked there.
\<close>

theorem html_export_outcome:
  assumes "run_full_scan env self fuel w = (r, w')"
    and "Http (HtmlReportReq u) out \<in> set (new_events w w')"
  shows "\<exists>pre code results rep.
       new_events w w' = pre @ [Http (AlertsReq (target_url self)) (Response code (Some results)),
                                Http (HtmlReportReq (target_url self)) out]
                           @ (if out = Hangs then [] else [Terminate, WaitExit])
     \<and> list_all (\<lambda>ev. (startup_event ev \<or> scan_event ev) \<and> \<not> html_export ev) pre
     \<and> build_report self (strftime env) results = Inr rep
     \<and> report_file w' = Some rep
     \<and> r = (case out of ConnFail \<Rightarrow> Raised ConnectionError | OtherFail \<Rightarrow> Raised RequestException
            | Hangs \<Rightarrow> Blocked | Response code b \<Rightarrow> Ok ())"
  using assms(1)
proof (cases rule: run_full_scan_cases)
  case not_started
  from start_zap_daemon_events[OF not_started(1)] assms(2) show ?thesis
    by (auto simp: list_all_iff)
next
  case blocked_start
  from start_zap_daemon_events[OF blocked_start(1)] assms(2) show ?thesis
    by (auto simp: list_all_iff)
next
  case (looping w1)
  have st: "trace w1 = trace w @ new_events w w1" "list_all startup_event (new_events w w1)"
    using start_zap_daemon_events[OF looping(1)] by blast+
  have sc: "trace w' = trace w1 @ new_events w1 w'"
    using steps_to_new_events[OF emits_onlyD[OF emits_only_scan_steps looping(2)]] by blast
  have e: "new_events w w' = new_events w w1 @ new_events w1 w'"
    using st(1) sc by (rule new_events_append)
  with st(2) assms(2) have "Http (HtmlReportReq u) out \<in> set (new_events w1 w')"
    by (auto simp: list_all_iff)
  from scan_steps_html[OF looping(2) this] obtain pre code results rep
    where f: "new_events w1 w' = pre @ [Http (AlertsReq (target_url self)) (Response code (Some results)),
                                Http (HtmlReportReq (target_url self)) out]"
      "list_all (\<lambda>ev. scan_event ev \<and> \<not> html_export ev) pre"
      "build_report self (strftime env) results = Inr rep"
      "report_file w' = Some rep"
      "r = (case out of ConnFail \<Rightarrow> Raised ConnectionError | OtherFail \<Rightarrow> Raised RequestException
            | Hangs \<Rightarrow> Blocked | Response code b \<Rightarrow> Ok ())"
    by blast
  from f(5) looping(3) have h: "out = Hangs" by (cases out) auto
  have "list_all (\<lambda>ev. (startup_event ev \<or> scan_event ev) \<and> \<not> html_export ev)
      (new_events w w1 @ pre)"
    using st(2) f(2) startup_no_html by (auto simp: list_all_iff)
  moreover have "new_events w w' = (new_events w w1 @ pre)
      @ [Http (AlertsReq (target_url self)) (Response code (Some results)),
         Http (HtmlReportReq (target_url self)) out]
      @ (if out = Hangs then [] else [Terminate, WaitExit])"
    using e f(1) h by simp
  ultimately show ?thesis using f(3,4,5) by blast
next
  case (finished w1 w2)
  have st: "trace w1 = trace w @ new_events w w1" "list_all startup_event (new_events w w1)"
    using start_zap_daemon_events[OF finished(1)] by blast+
  have sc: "trace w2 = trace w1 @ new_events w1 w2"
    using steps_to_new_events[OF emits_onlyD[OF emits_only_scan_steps finished(2)]] by blast
  have "trace w' = trace w1 @ (new_events w1 w2 @ [Terminate, WaitExit])"
    using sc finished(5) by (simp add: emit_def)
  with st(1) have e: "new_events w w' = new_events w w1 @ new_events w1 w2 @ [Terminate, WaitExit]"
    by (rule new_events_append)
  with st(2) assms(2) have "Http (HtmlReportReq u) out \<in> set (new_events w1 w2)"
    by (auto simp: list_all_iff)
  from scan_steps_html[OF finished(2) this] obtain pre code results rep
    where f: "new_events w1 w2 = pre @ [Http (AlertsReq (target_url self)) (Response code (Some results)),
                                Http (HtmlReportReq (target_url self)) out]"
      "list_all (\<lambda>ev. scan_event ev \<and> \<not> html_export ev) pre"
      "build_report self (strftime env) results = Inr rep"
      "report_file w2 = Some rep"
      "r = (case out of ConnFail \<Rightarrow> Raised ConnectionError | OtherFail \<Rightarrow> Raised RequestException
            | Hangs \<Rightarrow> Blocked | Response code b \<Rightarrow> Ok ())"
    by blast
  from f(5) finished(4) have h: "out \<noteq> Hangs" by auto
  have "list_all (\<lambda>ev. (startup_event ev \<or> scan_event ev) \<and> \<not> html_export ev)
      (new_events w w1 @ pre)"
    using st(2) f(2) startup_no_html by (auto simp: list_all_iff)
  moreover have "new_events w w' = (new_events w w1 @ pre)
      @ [Http (AlertsReq (target_url self)) (Response code (Some results)),
         Http (HtmlReportReq (target_url self)) out]
      @ (if out = Hangs then [] else [Terminate, WaitExit])"
    using e f(1) h by simp
  moreover have "report_file w' = Some rep"
    using f(4) finished(5) by (simp add: emit_def)
  ultimately show ?thesis using f(3,5) by blast
qed

theorem html_export_outcome_witness:
  "Http (HtmlReportReq ''http://localhost:3000'') ConnFail
     \<in> set (new_events world0
          (snd (run_full_scan (env_with (html_failing (JArr demo_alerts))) demo_self 5 world0)))
   \<and> (\<exists>pre code results rep.
        new_events world0
          (snd (run_full_scan (env_with (html_failing (JArr demo_alerts))) demo_self 5 world0))
          = pre @ [Http (AlertsReq (target_url demo_self)) (Response code (Some results)),
                   Http (HtmlReportReq (target_url demo_self)) ConnFail, Terminate, WaitExit]
        \<and> build_report demo_self (strftime (env_with (html_failing (JArr demo_alerts)))) results
            = Inr rep
        \<and> report_file (snd (run_full_scan (env_with (html_failing (JArr demo_alerts))) demo_self 5 world0))
            = Some rep)
   \<and> fst (run_full_scan (env_with (html_failing (JArr demo_alerts))) demo_self 5 world0)
       = Raised ConnectionError"
proof -
  let ?run = "run_full_scan (env_with (html_failing (JArr demo_alerts))) demo_self 5 world0"
  have h: "Http (HtmlReportReq ''http://localhost:3000'') ConnFail \<in> set (new_events world0 (snd ?run))"
    by code_simp
  from html_export_outcome[OF surjective_pairing h] obtain pre code results rep
    where "new_events world0 (snd ?run)
        = pre @ [Http (AlertsReq (target_url demo_self)) (Response code (Some results)),
                 Http (HtmlReportReq (target_url demo_self)) ConnFail]
            @ (if ConnFail = Hangs then [] else [Terminate, WaitExit])"
      and "build_report demo_self (strftime (env_with (html_failing (JArr demo_alerts)))) results = Inr rep"
      and "report_file (snd ?run) = Some rep"
      and "fst ?run = (case ConnFail of ConnFail \<Rightarrow> Raised ConnectionError
            | OtherFail \<Rightarrow> Raised RequestException | Hangs \<Rightarrow> Blocked | Response code b \<Rightarrow> Ok ())"
    by blast
  then have "new_events world0 (snd ?run)
        = pre @ [Http (AlertsReq (target_url demo_self)) (Response code (Some results)),
                 Http (HtmlReportReq (target_url demo_self)) ConnFail, Terminate, WaitExit]
      \<and> build_report demo_self (strftime (env_with (html_failing (JArr demo_alerts)))) results = Inr rep
      \<and> report_file (snd ?run) = Some rep"
    and "fst ?run = Raised ConnectionError"
    by simp_all
  with h show ?thesis by blast
qed

text \<open>
  Against claim C7 as it is written: with an engine that refuses the HTML export request,
  the JSON report with its four alerts is written and the run still fails, with
  \<open>ConnectionError\<close> and exit code 1.
\<close>

theorem html_failure_fails_run:
  "fst (main (env_with (html_failing (JArr demo_alerts)))
         [''zap-baseline-scan.py'', ''http://localhost:3000''] 5 world0) = Raised ConnectionError
   \<and> exit_code (fst (main (env_with (html_failing (JArr demo_alerts)))
         [''zap-baseline-scan.py'', ''http://localhost:3000''] 5 world0)) = Some 1
   \<and> map_option total_alerts (report_file (snd (main (env_with (html_failing (JArr demo_alerts)))
         [''zap-baseline-scan.py'', ''http://localhost:3000''] 5 world0))) = Some 4"
  by code_simp

subsection \<open>Exit codes\<close>



text \<open>
  A run against the cooperative engine completes with exit code 0 whatever the number of
  findings, as long as each has a known severity or none, and with two polls of fuel.
\<close>

lemma cooperative_scan_steps:
  assumes "build_report self (strftime (env_with (cooperative (JArr alerts))))
             (JObj [(''alerts'', JArr alerts)]) = Inr rep"
    and "engine w = 3"
  shows "\<exists>w'. scan_steps (env_with (cooperative (JArr alerts))) self (Suc (Suc fuel)) w = (Ok (), w')
           \<and> report_file w' = Some rep \<and> zap_process w' = zap_process w"
  using assms
  by (simp add: scan_steps_def configure_zap_def has_auth_def run_spider_scan_def
        run_active_scan_def get_scan_results_def generate_report_def poll_status_def
        and_then_def requests_get_def request_result_def env_with_def cooperative_def emit_def lift_def
        returns_def response_json_def write_report_def sleep_def)


lemma cooperative_wait:
  assumes "engine w = 0"
  shows "\<exists>w1. wait_for_zap (env_with (cooperative a)) (Suc (Suc (Suc n))) w = (Ok True, w1)
           \<and> engine w1 = 3 \<and> zap_process w1 = zap_process w \<and> report_file w1 = report_file w"
  using assms
  by (simp add: requests_get_def request_result_def env_with_def cooperative_def emit_def sleep_def)

lemma cooperative_start:
  assumes "engine w = 0"
  shows "\<exists>w1. start_zap_daemon (env_with (cooperative a)) w = (Ok True, w1)
           \<and> engine w1 = 3 \<and> zap_process w1 \<and> report_file w1 = report_file w"
proof -
  have m: "max_attempts = Suc (Suc (Suc 27))" by (simp add: max_attempts_def)
  have p: "popen_ok (env_with (cooperative a))" by (simp add: env_with_def)
  from assms have "engine (emit [Popen] (w\<lparr>zap_process := True\<rparr>)) = 0"
    by (simp add: emit_def)
  from cooperative_wait[OF this, of a 27] obtain w1
    where "wait_for_zap (env_with (cooperative a)) max_attempts (emit [Popen] (w\<lparr>zap_process := True\<rparr>))
        = (Ok True, w1)"
      and "engine w1 = 3" "zap_process w1" "report_file w1 = report_file w"
    unfolding m by (auto simp: emit_def)
  with p show ?thesis
    by (simp add: start_zap_daemon_def start_zap_daemon_try_def)
qed

lemma completed_run_any_findings:
  assumes "list_all known_risk alerts"
  shows "\<exists>w' rep. main (env_with (cooperative (JArr alerts))) [prog, target] (Suc (Suc fuel)) world0
            = (Ok (), w')
          \<and> exit_code (Ok ()) = Some 0
          \<and> report_file w' = Some rep \<and> total_alerts rep = int (length alerts)"
proof -
  let ?env = "env_with (cooperative (JArr alerts))"
  let ?self = "init_fields target None"
  have d: "dict_get (JObj [(''alerts'', JArr alerts)]) ''alerts'' (JArr []) = Inr (JArr alerts)"
    by simp
  from assms build_report_succeeds[OF d] obtain rep
    where rep: "build_report ?self (strftime ?env) (JObj [(''alerts'', JArr alerts)]) = Inr rep"
    by blast
  then have total: "total_alerts rep = int (length alerts)"
    by (auto simp: build_report_Inr[OF d])
  obtain w1 where st: "start_zap_daemon ?env (world0\<lparr>zap_process := False\<rparr>) = (Ok True, w1)"
    and w1: "engine w1 = 3" "zap_process w1"
    using cooperative_start[of "world0\<lparr>zap_process := False\<rparr>" "JArr alerts"]
    by (auto simp: world0_def)
  from cooperative_scan_steps[OF rep w1(1)] w1(2) obtain w2
    where sc: "scan_steps ?env ?self (Suc (Suc fuel)) w1 = (Ok (), w2)"
      and w2: "report_file w2 = Some rep" "zap_process w2"
    by auto
  have "main ?env [prog, target] (Suc (Suc fuel)) world0 = (Ok (), emit [Terminate, WaitExit] w2)"
    using st sc w2(2)
    by (simp add: main_def init_def and_then_def run_full_scan_def try_finally_def stop_zap_def)
       (simp add: env_with_def)
  with w2(1) total show ?thesis by (simp add: emit_def)
qed



subsection \<open>Fuel\<close>

text \<open>
  The fuel only cuts a run short: a run that has left \<open>run_full_scan\<close> with some
  fuel leaves it in the same way, and in the same world, with any larger amount.
\<close>

lemma fuel_stableD: "fuel_stable f \<Longrightarrow> f n w = (r, w') \<Longrightarrow> r \<noteq> OutOfFuel \<Longrightarrow> f (Suc n) w = (r, w')"
  unfolding fuel_stable_def by (metis fst_conv)

lemma fuel_stable_const: "fuel_stable (\<lambda>n. m)"
  by (simp add: fuel_stable_def)

lemma fuel_stable_and_then:
  assumes "fuel_stable m" and "\<And>a. fuel_stable (f a)"
  shows "fuel_stable (\<lambda>n. and_then (m n) (\<lambda>a. f a n))"
  unfolding fuel_stable_def
proof (intro allI)
  fix n w
  obtain r1 w1 where m: "m n w = (r1, w1)" by (cases "m n w")
  show "fst (and_then (m n) (\<lambda>a. f a n) w) = OutOfFuel
      \<or> and_then (m (Suc n)) (\<lambda>a. f a (Suc n)) w = and_then (m n) (\<lambda>a. f a n) w"
  proof (cases r1)
    case (Ok a)
    with m have m': "m (Suc n) w = (Ok a, w1)" by (intro fuel_stableD[OF assms(1)]) simp_all
    obtain r2 w2 where f: "f a n w1 = (r2, w2)" by (cases "f a n w1")
    show ?thesis
    proof (cases "r2 = OutOfFuel")
      case True
      with m Ok f show ?thesis by (simp add: and_then_def)
    next
      case False
      with f have "f a (Suc n) w1 = (r2, w2)" by (intro fuel_stableD[OF assms(2)])
      with m m' Ok f show ?thesis by (simp add: and_then_def)
    qed
  next
    case (Raised e)
    with m have "m (Suc n) w = (Raised e, w1)" by (intro fuel_stableD[OF assms(1)]) simp_all
    with m Raised show ?thesis by (simp add: and_then_def)
  next
    case OutOfFuel
    with m show ?thesis by (simp add: and_then_def)
  next
    case Blocked
    with m have "m (Suc n) w = (Blocked, w1)" by (intro fuel_stableD[OF assms(1)]) simp_all
    with m Blocked show ?thesis by (simp add: and_then_def)
  qed
qed

lemma fuel_stable_spider_wait: "fuel_stable (spider_wait env scan_id)"
  unfolding fuel_stable_def
proof (intro allI)
  fix n w
  show "fst (spider_wait env scan_id n w) = OutOfFuel
      \<or> spider_wait env scan_id (Suc n) w = spider_wait env scan_id n w"
  proof (induction n arbitrary: w)
    case 0
    then show ?case by simp
  next
    case (Suc n)
    obtain r1 w1 where g: "poll_status env (SpiderStatusReq scan_id) w = (r1, w1)"
      by (cases "poll_status env (SpiderStatusReq scan_id) w")
    from Suc[of "sleep 2 w1"] g show ?case
      by (cases r1) (auto simp del: spider_wait.simps simp add: spider_wait.simps(2)[of _ _ n]
          spider_wait.simps(2)[of _ _ "Suc n"])
  qed
qed

lemma fuel_stable_ascan_wait: "fuel_stable (ascan_wait env scan_id)"
  unfolding fuel_stable_def
proof (intro allI)
  fix n w
  show "fst (ascan_wait env scan_id n w) = OutOfFuel
      \<or> ascan_wait env scan_id (Suc n) w = ascan_wait env scan_id n w"
  proof (induction n arbitrary: w)
    case 0
    then show ?case by simp
  next
    case (Suc n)
    obtain r1 w1 where g: "poll_status env (AscanStatusReq scan_id) w = (r1, w1)"
      by (cases "poll_status env (AscanStatusReq scan_id) w")
    from Suc[of "sleep 5 w1"] g show ?case
      by (cases r1) (auto simp del: ascan_wait.simps simp add: ascan_wait.simps(2)[of _ _ n]
          ascan_wait.simps(2)[of _ _ "Suc n"])
  qed
qed

lemma fuel_stable_scan_steps: "fuel_stable (scan_steps env self)"
proof -
  have "fuel_stable (\<lambda>fuel.
     and_then (configure_zap env self) (\<lambda>_.
     and_then (run_spider_scan env self fuel) (\<lambda>_.
     and_then (run_active_scan env self fuel) (\<lambda>_.
     and_then (get_scan_results env self) (\<lambda>results.
       generate_report env self results)))))"
    unfolding run_spider_scan_def run_active_scan_def
    by (intro fuel_stable_and_then fuel_stable_const fuel_stable_spider_wait fuel_stable_ascan_wait)
  moreover have "scan_steps env self = (\<lambda>fuel.
     and_then (configure_zap env self) (\<lambda>_.
     and_then (run_spider_scan env self fuel) (\<lambda>_.
     and_then (run_active_scan env self fuel) (\<lambda>_.
     and_then (get_scan_results env self) (\<lambda>results.
       generate_report env self results)))))"
    by (rule ext) (simp add: scan_steps_def)
  ultimately show ?thesis by simp
qed

lemma run_full_scan_more_fuel:
  assumes "run_full_scan env self fuel w = (r, w')" and "r \<noteq> OutOfFuel"
  shows "run_full_scan env self (fuel + k) w = (r, w')"
proof (induction k)
  case 0
  with assms show ?case by simp
next
  case (Suc k)
  obtain r0 w1 where st: "start_zap_daemon env w = (r0, w1)" by (cases "start_zap_daemon env w")
  show ?case
  proof (cases "r0 = Ok True")
    case True
    obtain r2 w2 where sc: "scan_steps env self (fuel + k) w1 = (r2, w2)"
      by (cases "scan_steps env self (fuel + k) w1")
    with Suc st True assms(2) have "r2 \<noteq> OutOfFuel"
      by (auto simp: run_full_scan_def and_then_def try_finally_def)
    from fuel_stableD[OF fuel_stable_scan_steps sc this] sc Suc st True show ?thesis
      by (simp add: run_full_scan_def and_then_def try_finally_def)
  next
    case False
    with Suc st show ?thesis
      by (cases r0) (auto simp: run_full_scan_def and_then_def)
  qed
qed

end
